theory Spec2Isabelle
  imports Main "HOL-Library.Char_ord" "HOL-Library.List_Lexorder" "HOL-Library.Multiset"
begin

section \<open>Strings\<close>

text \<open>
  A Go string is a sequence of bytes, here a \<open>char list\<close>. \<open>strings.Index\<close> finds the
  first occurrence of a substring, \<open>strings.Count s "\n"\<close> counts line feeds, and
  \<open>strings.TrimSpace\<close> removes ASCII white space at both ends.

  \<open>toLower\<close> is \<open>strings.ToLower\<close> on ASCII text: it maps the letters \<open>A\<close>..\<open>Z\<close> to
  \<open>a\<close>..\<open>z\<close> and leaves every other byte alone. It stands for the library function
  where names are compared and tested, where only the ASCII samples depend on what it
  does. On text outside ASCII the library function can change the number of bytes (the
  Kelvin sign U+212A, three bytes, becomes \<open>k\<close>; U+023A, two bytes, becomes U+2C65, three
  bytes). The search indexes one string by positions of its lower-cased form, so there the
  lower-casing is a parameter and nothing is assumed of its length.
\<close>

definition lowerByte :: "char \<Rightarrow> char" where
  "lowerByte c =
     (case map_of (zip ''ABCDEFGHIJKLMNOPQRSTUVWXYZ'' ''abcdefghijklmnopqrstuvwxyz'') c of
        Some l \<Rightarrow> l
      | None \<Rightarrow> c)"

definition toLower :: "string \<Rightarrow> string" where
  "toLower s = map lowerByte s"

definition isSpace :: "char \<Rightarrow> bool" where
  "isSpace c = (of_char c \<in> {9::nat, 10, 11, 12, 13, 32})"

definition trimSpace :: "string \<Rightarrow> string" where
  "trimSpace s = rev (dropWhile isSpace (rev (dropWhile isSpace s)))"

fun hasPrefix :: "string \<Rightarrow> string \<Rightarrow> bool" where
  "hasPrefix s [] = True"
| "hasPrefix [] (p # ps) = False"
| "hasPrefix (c # cs) (p # ps) = (c = p \<and> hasPrefix cs ps)"

text \<open>\<open>strings.Index s sub\<close>: the first position where \<open>sub\<close> occurs in \<open>s\<close>; Go's
  \<open>-1\<close> is \<open>None\<close>.\<close>

fun strIndex :: "string \<Rightarrow> string \<Rightarrow> nat option" where
  "strIndex [] sub = (if sub = [] then Some 0 else None)"
| "strIndex (c # cs) sub =
     (if hasPrefix (c # cs) sub then Some 0 else map_option Suc (strIndex cs sub))"

text \<open>The position \<open>strIndex\<close> returns is an occurrence and lies inside the string; the
  scan below terminates by this.\<close>

lemma hasPrefix_take: "hasPrefix s p \<longleftrightarrow> take (length p) s = p"
  by (induction s p rule: hasPrefix.induct) auto

lemma strIndex_Some:
  "strIndex s sub = Some pos \<Longrightarrow> pos + length sub \<le> length s \<and> take (length sub) (drop pos s) = sub"
proof (induction s arbitrary: pos)
  case Nil
  then show ?case by (simp split: if_splits)
next
  case (Cons c cs)
  show ?case
  proof (cases "hasPrefix (c # cs) sub")
    case True
    with Cons.prems have p0: "pos = 0" by simp
    from True have t: "take (length sub) (c # cs) = sub" by (simp only: hasPrefix_take)
    from arg_cong [OF t, of length] have "length sub \<le> length (c # cs)"
      by simp
    with p0 t show ?thesis by simp
  next
    case False
    with Cons.prems obtain q where q: "strIndex cs sub = Some q" "pos = Suc q" by auto
    from Cons.IH [OF q(1)] q(2) show ?thesis by simp
  qed
qed

definition newline :: char where
  "newline = CHR 0x0A"

definition countNewlines :: "string \<Rightarrow> int" where
  "countNewlines s = int (length (filter (\<lambda>c. c = newline) s))"

section \<open>Search over the rendered content\<close>

text \<open>How a call can fail to return: an index or a slice bound out of range panics, a
  loop may never leave.\<close>

datatype fault = IndexOutOfRange | SliceOutOfRange | NeverReturns

text \<open>
  \<open>findSearchMatches\<close> (the \<open>ui\<close> package). \<open>ansi.Strip\<close> and \<open>strings.ToLower\<close> belong
  to libraries outside the repository and are the parameters \<open>strip\<close> and \<open>lower\<close>. The
  \<open>for\<close> loop has no bound of its own: it is a partial function into \<open>option\<close>, where
  \<open>None\<close> stands for a loop that never leaves, and the loop's variables \<open>offset\<close> and
  \<open>matches\<close> are its arguments. The slice \<open>lowerContent[offset:]\<close> is \<open>drop\<close>: \<open>offset\<close>
  is 0 or the end of a match inside \<open>lowerContent\<close>, never out of range. The slice
  \<open>stripped[:absolute]\<close> takes a position of \<open>lowerContent\<close> into \<open>stripped\<close>, which may be
  shorter: then the program panics. Go's \<open>int\<close> is \<open>int\<close> here; the values are positions
  and line counts, bounded by the length of a string.
\<close>

partial_function (option) searchLoop ::
  "string \<Rightarrow> string \<Rightarrow> string \<Rightarrow> nat \<Rightarrow> int list \<Rightarrow> (fault + int list) option" where
  "searchLoop stripped lowerContent lowerQuery offset matches =
     (case strIndex (drop offset lowerContent) lowerQuery of
        None \<Rightarrow> Some (Inr matches)
      | Some pos \<Rightarrow>
          (let absolute = offset + pos in
           if length stripped < absolute then Some (Inl SliceOutOfRange)
           else
             (let line = countNewlines (take absolute stripped)
              in searchLoop stripped lowerContent lowerQuery
                   (absolute + length lowerQuery) (matches @ [line]))))"

declare searchLoop.simps [code]

text \<open>
  The positions the scan is meant to report, in the words of its description: the first
  occurrence of the query at or after \<open>offset\<close>, then the same again from the position
  right after the end of that occurrence.
\<close>

function scanPositions :: "string \<Rightarrow> string \<Rightarrow> nat \<Rightarrow> nat list" where
  "scanPositions lc lq offset =
     (if lq = [] then []
      else case strIndex (drop offset lc) lq of
             None \<Rightarrow> []
           | Some pos \<Rightarrow> (offset + pos) # scanPositions lc lq (offset + pos + length lq))"
  by pat_completeness auto
termination
proof (relation "measure (\<lambda>(lc, lq, offset). length lc - offset)")
  show "wf (measure (\<lambda>(lc, lq, offset). length lc - offset))"
    by simp
next
  fix lc lq :: string and offset pos :: nat
  assume ne: "lq \<noteq> []" and idx: "strIndex (drop offset lc) lq = Some pos"
  from strIndex_Some [OF idx] have "pos + length lq \<le> length lc - offset"
    by simp
  with ne show "((lc, lq, offset + pos + length lq), (lc, lq, offset))
      \<in> measure (\<lambda>(lc, lq, offset). length lc - offset)"
    by (cases lq) auto
qed

declare scanPositions.simps [simp del]

definition findSearchMatches ::
  "(string \<Rightarrow> string) \<Rightarrow> (string \<Rightarrow> string) \<Rightarrow> string \<Rightarrow> string \<Rightarrow> fault + int list" where
  "findSearchMatches strip lower content query0 =
     (let query = trimSpace query0 in
      if query = [] \<or> content = [] then Inr []
      else
        (let stripped = strip content;
             lowerContent = lower stripped;
             lowerQuery = lower query
         in case searchLoop stripped lowerContent lowerQuery 0 [] of
              None \<Rightarrow> Inl NeverReturns
            | Some result \<Rightarrow> result))"

fun absInt :: "int \<Rightarrow> int" where
  "absInt v = (if v < 0 then - v else v)"

text \<open>The loop of \<open>closestMatchIndex\<close>, from index \<open>i\<close> on, with the best index and
  the best distance so far.\<close>

fun closestLoop :: "int list \<Rightarrow> int \<Rightarrow> nat \<Rightarrow> nat \<Rightarrow> int \<Rightarrow> nat" where
  "closestLoop [] line i bestIndex bestDiff = bestIndex"
| "closestLoop (x # rest) line i bestIndex bestDiff =
     (let diff = absInt (x - line)
      in if diff < bestDiff then closestLoop rest line (Suc i) i diff
         else closestLoop rest line (Suc i) bestIndex bestDiff)"

definition closestMatchIndex :: "int list \<Rightarrow> int \<Rightarrow> nat" where
  "closestMatchIndex matches line =
     (case matches of
        [] \<Rightarrow> 0
      | m0 # rest \<Rightarrow> closestLoop rest line 1 0 (absInt (m0 - line)))"


section \<open>The viewer's model\<close>

text \<open>
  The errors the program stores in its error slot: the "no match" status that the search
  builds with \<open>fmt.Errorf\<close> from the query, the errors that come back from the operating
  system or from the renderer, and \<open>errNotDir\<close> of the loader.
\<close>

datatype error = NoMatchError string | IOError string | NotDirError

text \<open>
  The content viewport belongs to a library outside the repository. The program reads
  its height and its vertical offset and changes it through \<open>SetYOffset\<close> and
  \<open>SetContent\<close>, which are parameters here, as are \<open>ansi.Strip\<close>, \<open>os.ReadFile\<close>,
  \<open>filepath.Clean\<close> and \<open>strings.ToLower\<close> as the search calls it.
\<close>

record viewport =
  vpHeight :: int
  vpYOffset :: int
  vpContent :: string

record env =
  ansiStrip :: "string \<Rightarrow> string"
  vpSetYOffset :: "int \<Rightarrow> viewport \<Rightarrow> viewport"
  vpSetContent :: "string \<Rightarrow> viewport \<Rightarrow> viewport"
  readFile :: "string \<Rightarrow> error + string"
  clean :: "string \<Rightarrow> string"
  strToLower :: "string \<Rightarrow> string"

text \<open>The fields of \<open>Model\<close> that the search and the watch reactor read or write; every
  other field of the struct is in the record's extension.\<close>

record Model =
  contentVP :: viewport
  renderer :: "(string \<Rightarrow> error + string) option"
  rawContent :: string
  err :: "error option"
  activeAbsPath :: string
  renderedContent :: string
  searchQuery :: string
  searchMatches :: "int list"
  searchIndex :: int
  watchedFile :: string

fun clamp :: "int \<Rightarrow> int \<Rightarrow> int \<Rightarrow> int" where
  "clamp v low high = (if v < low then low else if v > high then high else v)"

fun maxInt :: "int \<Rightarrow> int \<Rightarrow> int" where
  "maxInt a b = (if a > b then a else b)"

definition gotoSearchMatch :: "env \<Rightarrow> 'z Model_scheme \<Rightarrow> fault + 'z Model_scheme" where
  "gotoSearchMatch e m =
     (if searchMatches m = [] \<or> searchIndex m < 0 then Inr m
      else
        (let totalLines = countNewlines (renderedContent m) + 1 in
         if totalLines \<le> 0 then Inr m
         else if int (length (searchMatches m)) \<le> searchIndex m then Inl IndexOutOfRange
         else
           (let targetLine = searchMatches m ! nat (searchIndex m);
                maxOffset = maxInt (totalLines - vpHeight (contentVP m)) 0;
                offset = clamp targetLine 0 maxOffset
            in Inr (m\<lparr>contentVP := vpSetYOffset e offset (contentVP m)\<rparr>))))"

definition performSearch ::
  "env \<Rightarrow> string \<Rightarrow> bool \<Rightarrow> 'z Model_scheme \<Rightarrow> fault + 'z Model_scheme" where
  "performSearch e query0 resetIndex m =
     (let query = trimSpace query0 in
      case findSearchMatches (ansiStrip e) (strToLower e) (renderedContent m) query of
        Inl f \<Rightarrow> Inl f
      | Inr ms \<Rightarrow>
          (let m1 = m\<lparr>searchQuery := query, searchMatches := ms\<rparr> in
           if ms = [] then Inr (m1\<lparr>searchIndex := - 1, err := Some (NoMatchError query)\<rparr>)
           else
             (let m2 = (if resetIndex \<or> searchIndex m1 < 0 \<or> int (length ms) \<le> searchIndex m1
                        then m1\<lparr>searchIndex := 0\<rparr> else m1)
              in gotoSearchMatch e (m2\<lparr>err := None\<rparr>))))"

definition nextSearchMatch :: "env \<Rightarrow> 'z Model_scheme \<Rightarrow> fault + 'z Model_scheme" where
  "nextSearchMatch e m =
     (if searchMatches m = [] then Inr m
      else
        (let m1 = (if searchIndex m < 0 then m\<lparr>searchIndex := 0\<rparr>
                   else m\<lparr>searchIndex := (searchIndex m + 1) mod int (length (searchMatches m))\<rparr>)
         in gotoSearchMatch e (m1\<lparr>err := None\<rparr>)))"

definition previousSearchMatch :: "env \<Rightarrow> 'z Model_scheme \<Rightarrow> fault + 'z Model_scheme" where
  "previousSearchMatch e m =
     (if searchMatches m = [] then Inr m
      else
        (let m1 = (if searchIndex m \<le> 0 then m\<lparr>searchIndex := int (length (searchMatches m)) - 1\<rparr>
                   else m\<lparr>searchIndex := searchIndex m - 1\<rparr>)
         in gotoSearchMatch e (m1\<lparr>err := None\<rparr>)))"

definition onContentChanged :: "env \<Rightarrow> 'z Model_scheme \<Rightarrow> fault + 'z Model_scheme" where
  "onContentChanged e m =
     (if searchQuery m = [] then Inr m
      else
        (let prevLine =
               (if searchMatches m \<noteq> [] \<and> 0 \<le> searchIndex m
                   \<and> searchIndex m < int (length (searchMatches m))
                then searchMatches m ! nat (searchIndex m) else - 1)
         in case findSearchMatches (ansiStrip e) (strToLower e) (renderedContent m) (searchQuery m) of
              Inl f \<Rightarrow> Inl f
            | Inr ms \<Rightarrow>
                (let m1 = m\<lparr>searchMatches := ms\<rparr> in
                 if ms = [] then
                   Inr (m1\<lparr>searchIndex := - 1, err := Some (NoMatchError (searchQuery m))\<rparr>)
                 else
                   (let m2 =
                          (if 0 \<le> prevLine then m1\<lparr>searchIndex := int (closestMatchIndex ms prevLine)\<rparr>
                           else if searchIndex m1 < 0 \<or> int (length ms) \<le> searchIndex m1
                                then m1\<lparr>searchIndex := 0\<rparr> else m1)
                    in gotoSearchMatch e (m2\<lparr>err := None\<rparr>)))))"

text \<open>
  The index \<open>k\<close> is the closest match to \<open>line\<close>: no match is nearer, and every
  match before \<open>k\<close> is strictly farther (the lowest index wins a tie).
\<close>

definition bestAt :: "int list \<Rightarrow> int \<Rightarrow> nat \<Rightarrow> bool" where
  "bestAt ms line k \<longleftrightarrow>
     k < length ms \<and> (\<forall>j<length ms. abs (ms ! k - line) \<le> abs (ms ! j - line))
     \<and> (\<forall>j<k. abs (ms ! k - line) < abs (ms ! j - line))"


section \<open>Reloading the watched file\<close>






section \<open>The tree of nodes\<close>

text \<open>
  \<open>Node\<close> of package \<open>tree\<close>. A node owns its children, so the tree is a datatype; the
  \<open>Parent\<close> pointer of the struct is the place of a node in this tree and is no field
  here. \<open>loader\<close> is \<open>None\<close> for Go's \<open>nil\<close>; the type \<open>'l\<close> is the loader behind the
  interface.
\<close>

datatype 'l node =
  Node (Name: string) (Path: string) (IsDir: bool) (Open: bool)
       (Children: "'l node list") (loader: "'l option") (loaded: bool)

fun ChildByName :: "'l node \<Rightarrow> string \<Rightarrow> 'l node option" where
  "ChildByName n name = find (\<lambda>child. Name child = name) (Children n)"

fun AddChild :: "'l node \<Rightarrow> 'l node \<Rightarrow> 'l node" where
  "AddChild (Node nm p d opn cs l ld) child = Node nm p d opn (cs @ [child]) l ld"

text \<open>
  The comparison that \<open>SortRecursive\<close>, \<open>sortChildren\<close> and \<open>sortTree\<close> all hand to
  \<open>sort.Slice\<close>. Go compares strings byte by byte, which is the lexicographic order on
  \<open>char list\<close>.
\<close>

definition nodeLess :: "'l node \<Rightarrow> 'l node \<Rightarrow> bool" where
  "nodeLess ci cj =
     (if IsDir ci = IsDir cj then toLower (Name ci) < toLower (Name cj)
      else if IsDir ci then True else False)"

text \<open>
  \<open>sort.Slice\<close> promises a permutation that is ordered by the comparison and nothing about
  elements that compare equal. It is modelled by insertion sort; the properties below use
  only that the result is an ordered permutation.
\<close>

fun insertBy :: "('a \<Rightarrow> 'a \<Rightarrow> bool) \<Rightarrow> 'a \<Rightarrow> 'a list \<Rightarrow> 'a list" where
  "insertBy lt x [] = [x]"
| "insertBy lt x (y # ys) = (if lt y x then y # insertBy lt x ys else x # y # ys)"

definition sortSlice :: "('a \<Rightarrow> 'a \<Rightarrow> bool) \<Rightarrow> 'a list \<Rightarrow> 'a list" where
  "sortSlice lt xs = foldr (insertBy lt) xs []"

lemma set_insertBy: "set (insertBy lt x ys) = insert x (set ys)"
  by (induction ys) auto

lemma set_sortSlice: "set (sortSlice lt xs) = set xs"
  by (induction xs) (simp_all add: sortSlice_def set_insertBy)

lemma size_child: "c \<in> set cs \<Longrightarrow> size c < Suc (size_list size cs)"
  by (induction cs) auto

function SortRecursive :: "'l node \<Rightarrow> 'l node" where
  "SortRecursive (Node nm p d opn cs l ld) =
     Node nm p d opn
       (map (\<lambda>child. if Children child \<noteq> [] then SortRecursive child else child)
          (sortSlice nodeLess cs))
       l ld"
  by pat_completeness auto
termination
  by (relation "measure size") (auto simp: set_sortSlice dest: size_child)

text \<open>\<open>sortChildren\<close>: one level only.\<close>

fun sortChildren :: "'l node \<Rightarrow> 'l node" where
  "sortChildren (Node nm p d opn cs l ld) = Node nm p d opn (sortSlice nodeLess cs) l ld"

text \<open>\<open>sortTree\<close> of package \<open>app\<close>.\<close>

function sortTree :: "'l node \<Rightarrow> 'l node" where
  "sortTree (Node nm p d opn cs l ld) =
     (if cs = [] then Node nm p d opn cs l ld
      else Node nm p d opn (map sortTree (sortSlice nodeLess cs)) l ld)"
  by pat_completeness auto
termination
  by (relation "measure size") (auto simp: set_sortSlice dest: size_child)

subsection \<open>The eager builder\<close>

definition slash :: char where
  "slash = CHR ''/''"

text \<open>\<open>strings.Split s "/"\<close>: never empty, \<open>[""]\<close> for the empty string.\<close>

fun splitSlash :: "string \<Rightarrow> string list" where
  "splitSlash [] = [[]]"
| "splitSlash (c # cs) =
     (if c = slash then [] # splitSlash cs
      else case splitSlash cs of
             [] \<Rightarrow> [[c]]
           | w # ws \<Rightarrow> (c # w) # ws)"

definition joinPath :: "string \<Rightarrow> string \<Rightarrow> string" where
  "joinPath base part = (if base = [] then part else base @ [slash] @ part)"

text \<open>
  The program changes a child through the pointer that \<open>ChildByName\<close> returned, the
  first child with that name; here that child is replaced in the list of children.
\<close>

fun updateChild :: "string \<Rightarrow> ('l node \<Rightarrow> 'l node) \<Rightarrow> 'l node list \<Rightarrow> 'l node list" where
  "updateChild name f [] = []"
| "updateChild name f (c # cs) = (if Name c = name then f c # cs else c # updateChild name f cs)"

fun setChildren :: "'l node \<Rightarrow> 'l node list \<Rightarrow> 'l node" where
  "setChildren (Node nm p d opn cs l ld) cs' = Node nm p d opn cs' l ld"

text \<open>
  The inner loop of \<open>Build\<close> over the segments of one path, from the node \<open>current\<close>
  with the path \<open>currentPath\<close>: every segment but the last is a directory to walk into,
  created when missing; the last is a file, skipped when the name is taken.
\<close>

fun insertParts :: "string list \<Rightarrow> string \<Rightarrow> 'l node \<Rightarrow> 'l node" where
  "insertParts [] currentPath current = current"
| "insertParts [part] currentPath current =
     (if ChildByName current part \<noteq> None then current
      else AddChild current (Node part (joinPath currentPath part) False False [] None False))"
| "insertParts (part # rest) currentPath current =
     (let currentPath' = joinPath currentPath part in
      case ChildByName current part of
        None \<Rightarrow>
          AddChild current
            (insertParts rest currentPath' (Node part currentPath' True False [] None False))
      | Some child \<Rightarrow>
          setChildren current
            (updateChild part (insertParts rest currentPath') (Children current)))"

definition Build :: "string \<Rightarrow> string list \<Rightarrow> 'l node" where
  "Build rootName files =
     SortRecursive
       (foldl (\<lambda>root rel. insertParts (splitSlash rel) [] root)
          (Node rootName [] True True [] None False) files)"

subsection \<open>The tree of a tag filter\<close>

text \<open>\<open>strings.Trim rel "/"\<close>.\<close>

definition trimSlashes :: "string \<Rightarrow> string" where
  "trimSlashes s = rev (dropWhile (\<lambda>c. c = slash) (rev (dropWhile (\<lambda>c. c = slash) s)))"

fun makeFile :: "'l node \<Rightarrow> 'l node" where
  "makeFile (Node nm p d opn cs l ld) = Node nm p False False [] l ld"

text \<open>The loop of \<open>insertPath\<close> over the segments, from \<open>current\<close> with \<open>parentPath\<close>.\<close>

fun insertPath :: "string list \<Rightarrow> string \<Rightarrow> 'l node \<Rightarrow> 'l node" where
  "insertPath [] parentPath current = current"
| "insertPath (part # rest) parentPath current =
     (let isLast = (rest = []);
          childPath = joinPath parentPath part;
          step = (\<lambda>child. if isLast then makeFile child else insertPath rest childPath child)
      in case ChildByName current part of
           None \<Rightarrow> AddChild current (step (Node part childPath (\<not> isLast) False [] None False))
         | Some child \<Rightarrow> setChildren current (updateChild part step (Children current)))"

definition buildFilteredTree :: "string \<Rightarrow> string list \<Rightarrow> 'l node" where
  "buildFilteredTree displayRoot relPaths =
     sortTree
       (foldl (\<lambda>root rel.
                 let trimmed = trimSlashes rel in
                 if trimmed = [] then root else insertPath (splitSlash trimmed) [] root)
          (Node displayRoot [] True True [] None False) relPaths)"

subsection \<open>The order of children\<close>

text \<open>
  The sorting invariant in the words of its description: of two children, the earlier
  one is a directory whenever the later one is, and when both are directories or both are
  files the lower-cased name of the earlier one is not greater. \<open>treeOrdered\<close> asks this
  of the children of every node of a tree.
\<close>

definition inOrder :: "'l node \<Rightarrow> 'l node \<Rightarrow> bool" where
  "inOrder a b \<longleftrightarrow>
     (IsDir b \<longrightarrow> IsDir a) \<and> (IsDir a = IsDir b \<longrightarrow> toLower (Name a) \<le> toLower (Name b))"

definition levelOrdered :: "'l node list \<Rightarrow> bool" where
  "levelOrdered cs = sorted_wrt inOrder cs"

fun treeOrdered :: "'l node \<Rightarrow> bool" where
  "treeOrdered (Node nm p d opn cs l ld) = (levelOrdered cs \<and> (\<forall>c\<in>set cs. treeOrdered c))"

text \<open>
  The segments of a path are present under a node: each names a child of the node the
  walk has reached, and the walk goes on in that child.
\<close>

fun present :: "string list \<Rightarrow> 'l node \<Rightarrow> bool" where
  "present [] n = True"
| "present (part # rest) n =
     (case ChildByName n part of None \<Rightarrow> False | Some child \<Rightarrow> present rest child)"

subsection \<open>Loading on demand\<close>

text \<open>
  \<open>EnsureLoaded\<close>. The loader's \<open>List\<close> is the parameter \<open>lst\<close>; it may read and change
  a world \<open>'w\<close> (a file system, a cache). Next to Go's error result and the node after
  the call, the model returns the world and the paths of the \<open>List\<close> calls it made.
\<close>

fun setLoader :: "'l option \<Rightarrow> 'l node \<Rightarrow> 'l node" where
  "setLoader l' (Node nm p d opn cs l ld) = Node nm p d opn cs l' ld"

definition EnsureLoaded ::
  "('l \<Rightarrow> string \<Rightarrow> 'w \<Rightarrow> (error + 'l node list) \<times> 'w) \<Rightarrow> 'l node \<Rightarrow> 'w
     \<Rightarrow> error option \<times> 'l node \<times> 'w \<times> string list" where
  "EnsureLoaded lst n w =
     (case loader n of
        None \<Rightarrow> (None, n, w, [])
      | Some l \<Rightarrow>
          if \<not> IsDir n \<or> loaded n then (None, n, w, [])
          else
            (case lst l (Path n) w of
               (Inl e, w') \<Rightarrow> (Some e, n, w', [Path n])
             | (Inr children, w') \<Rightarrow>
                 (None,
                  sortChildren
                    (Node (Name n) (Path n) (IsDir n) (Open n)
                       (map (setLoader (loader n)) children) (loader n) True),
                  w', [Path n])))"

text \<open>Two calls of \<open>EnsureLoaded\<close> in succession on the same node: the result of the
  second call, with the \<open>List\<close> calls of both.\<close>

definition EnsureLoadedTwice ::
  "('l \<Rightarrow> string \<Rightarrow> 'w \<Rightarrow> (error + 'l node list) \<times> 'w) \<Rightarrow> 'l node \<Rightarrow> 'w
     \<Rightarrow> error option \<times> 'l node \<times> 'w \<times> string list" where
  "EnsureLoadedTwice lst n w =
     (case EnsureLoaded lst n w of
        (e1, n1, w1, calls1) \<Rightarrow>
          (case EnsureLoaded lst n1 w1 of
             (e2, n2, w2, calls2) \<Rightarrow> (e2, n2, w2, calls1 @ calls2)))"

section \<open>The loader of the file system\<close>

text \<open>
  The directory under the loader's root is a finite tree: a file, a directory with its
  entries (name and node, in the order \<open>os.ReadDir\<close> returns them), or a directory that
  cannot be read. The directory that \<open>os.ReadDir\<close> finds under the path
  \<open>join relPath name\<close> is the entry \<open>name\<close> of the directory under \<open>relPath\<close>, so the
  functions below walk the tree and carry the relative path, which is the key of the
  cache.
\<close>

datatype fsnode = FsFile | FsDir "(string \<times> fsnode) list" | FsDenied

fun isDirEntry :: "fsnode \<Rightarrow> bool" where
  "isDirEntry FsFile = False"
| "isDirEntry (FsDir entries) = True"
| "isDirEntry FsDenied = True"

definition join :: "string \<Rightarrow> string \<Rightarrow> string" where
  "join base part = (if base = [] then part else base @ [slash] @ part)"

definition shouldSkipDir :: "string \<Rightarrow> bool" where
  "shouldSkipDir name \<longleftrightarrow>
     toLower name \<in> set [''.git'', ''node_modules'', ''.hg'', ''.svn'', ''.idea'', ''.vscode'']"

definition hasSuffix :: "string \<Rightarrow> string \<Rightarrow> bool" where
  "hasSuffix s suffix = hasPrefix (rev s) (rev suffix)"

definition isMarkdown :: "string \<Rightarrow> bool" where
  "isMarkdown name = (let lower = toLower name in hasSuffix lower ''.md'' \<or> hasSuffix lower ''.mdx'')"

type_synonym cache = "string \<rightharpoonup> bool"

text \<open>
  \<open>HasMarkdown\<close> and its loop over the entries. The result is Go's pair (an error, or
  the boolean), the cache after the call, and the relative paths handed to \<open>os.ReadDir\<close>
  during the call, in order.
\<close>

fun HasMarkdown :: "fsnode \<Rightarrow> string \<Rightarrow> cache \<Rightarrow> (error + bool) \<times> cache \<times> string list"
  and hasMarkdownEntries ::
    "(string \<times> fsnode) list \<Rightarrow> string \<Rightarrow> cache \<Rightarrow> (error + bool) \<times> cache \<times> string list" where
  "HasMarkdown d relPath cache =
     (case cache relPath of
        Some cached \<Rightarrow> (Inr cached, cache, [])
      | None \<Rightarrow>
          (case d of
             FsDir entries \<Rightarrow>
               (case hasMarkdownEntries entries relPath cache of
                  (r, c, rd) \<Rightarrow> (r, c, relPath # rd))
           | FsFile \<Rightarrow> (Inl (IOError relPath), cache, [relPath])
           | FsDenied \<Rightarrow> (Inl (IOError relPath), cache, [relPath])))"
| "hasMarkdownEntries [] relPath cache = (Inr False, cache(relPath \<mapsto> False), [])"
| "hasMarkdownEntries ((name, e) # rest) relPath cache =
     (if isDirEntry e then
        (if shouldSkipDir name then hasMarkdownEntries rest relPath cache
         else
           (case HasMarkdown e (join relPath name) cache of
              (Inl er, c, rd) \<Rightarrow> (Inl er, c, rd)
            | (Inr has, c, rd) \<Rightarrow>
                if has then (Inr True, c(relPath \<mapsto> True), rd)
                else (case hasMarkdownEntries rest relPath c of
                        (r, c', rd') \<Rightarrow> (r, c', rd @ rd'))))
      else if isMarkdown name then (Inr True, cache(relPath \<mapsto> True), [])
      else hasMarkdownEntries rest relPath cache)"

declare HasMarkdown.simps [simp del]

text \<open>The loop of \<open>List\<close> over the entries, with the nodes collected so far.\<close>

fun listEntries ::
  "(string \<times> fsnode) list \<Rightarrow> string \<Rightarrow> cache \<Rightarrow> 'l node list
     \<Rightarrow> (error + 'l node list) \<times> cache \<times> string list" where
  "listEntries [] relPath cache nodes = (Inr nodes, cache, [])"
| "listEntries ((name, e) # rest) relPath cache nodes =
     (if isDirEntry e then
        (if shouldSkipDir name then listEntries rest relPath cache nodes
         else
           (let childPath = join relPath name in
            case HasMarkdown e childPath cache of
              (Inl er, c, rd) \<Rightarrow> (Inl er, c, rd)
            | (Inr has, c, rd) \<Rightarrow>
                (case listEntries rest relPath c
                        (if has then nodes @ [Node name childPath True False [] None False]
                         else nodes) of
                   (r, c', rd') \<Rightarrow> (r, c', rd @ rd'))))
      else if \<not> isMarkdown name then listEntries rest relPath cache nodes
      else listEntries rest relPath cache
             (nodes @ [Node name (join relPath name) False False [] None False]))"

text \<open>The node that \<open>os.Stat\<close> and \<open>os.ReadDir\<close> find under a relative path.\<close>

fun fsLookupParts :: "fsnode \<Rightarrow> string list \<Rightarrow> fsnode option" where
  "fsLookupParts d [] = Some d"
| "fsLookupParts d (part # rest) =
     (case d of
        FsDir entries \<Rightarrow>
          (case map_of entries part of
             None \<Rightarrow> None
           | Some e \<Rightarrow> fsLookupParts e rest)
      | FsFile \<Rightarrow> None
      | FsDenied \<Rightarrow> None)"

definition fsLookup :: "fsnode \<Rightarrow> string \<Rightarrow> fsnode option" where
  "fsLookup root relPath = (if relPath = [] then Some root else fsLookupParts root (splitSlash relPath))"

definition List :: "fsnode \<Rightarrow> string \<Rightarrow> cache \<Rightarrow> (error + 'l node list) \<times> cache \<times> string list" where
  "List root relPath cache =
     (case fsLookup root relPath of
        None \<Rightarrow> (Inl (IOError relPath), cache, [])
      | Some FsFile \<Rightarrow> (Inl NotDirError, cache, [])
      | Some FsDenied \<Rightarrow> (Inl (IOError relPath), cache, [relPath])
      | Some (FsDir entries) \<Rightarrow>
          (case listEntries entries relPath cache [] of
             (r, c, rd) \<Rightarrow> (r, c, relPath # rd)))"

text \<open>The loader of the file system as \<open>EnsureLoaded\<close> sees it: the world is the cache.\<close>

definition fsList :: "fsnode \<Rightarrow> string \<Rightarrow> cache \<Rightarrow> (error + fsnode node list) \<times> cache" where
  "fsList root relPath cache = (case List root relPath cache of (r, c, rd) \<Rightarrow> (r, c))"

text \<open>
  What the cache is about, in the words of its description: the subtree of a directory
  holds a document, not counting the directories of the skip list. \<open>readable\<close>: every
  directory of the subtree outside the skip list can be read. \<open>cacheKeys\<close>: the relative
  paths of those directories.
\<close>

fun hasDocument :: "fsnode \<Rightarrow> bool" where
  "hasDocument (FsDir entries) =
     (\<exists>(name, e)\<in>set entries.
        if isDirEntry e then \<not> shouldSkipDir name \<and> hasDocument e else isMarkdown name)"
| "hasDocument FsFile = False"
| "hasDocument FsDenied = False"

fun readable :: "fsnode \<Rightarrow> bool" where
  "readable (FsDir entries) =
     (\<forall>(name, e)\<in>set entries. isDirEntry e \<and> \<not> shouldSkipDir name \<longrightarrow> readable e)"
| "readable FsFile = False"
| "readable FsDenied = False"

fun cacheKeys :: "fsnode \<Rightarrow> string \<Rightarrow> string set" where
  "cacheKeys (FsDir entries) relPath =
     insert relPath
       (\<Union>(name, e)\<in>set entries.
          if isDirEntry e \<and> \<not> shouldSkipDir name then cacheKeys e (join relPath name) else {})"
| "cacheKeys FsFile relPath = {relPath}"
| "cacheKeys FsDenied relPath = {relPath}"

section \<open>Sample inputs\<close>

text \<open>A text without escape sequences, an environment whose viewport stores what it is
  given, and a model that shows this text with a search for \<open>hello\<close> under way.\<close>

definition sampleText :: string where
  "sampleText = ''Hello hello world'' @ [newline] @ ''hello again''"

definition plainEnv :: env where
  "plainEnv =
     \<lparr>ansiStrip = (\<lambda>s. s),
      vpSetYOffset = (\<lambda>n v. v\<lparr>vpYOffset := n\<rparr>),
      vpSetContent = (\<lambda>s v. v\<lparr>vpContent := s\<rparr>),
      readFile = (\<lambda>p. if p = ''/docs/a.md'' then Inr ''# a'' else Inl (IOError p)),
      clean = (\<lambda>p. p),
      strToLower = toLower\<rparr>"

definition sampleModel :: Model where
  "sampleModel =
     \<lparr>contentVP = \<lparr>vpHeight = 1, vpYOffset = 0, vpContent = sampleText\<rparr>,
      renderer = Some (\<lambda>raw. Inr raw),
      rawContent = sampleText,
      err = None,
      activeAbsPath = ''/docs/a.md'',
      renderedContent = sampleText,
      searchQuery = ''hello'',
      searchMatches = [0, 0, 1],
      searchIndex = 0,
      watchedFile = ''/docs/a.md''\<rparr>"

text \<open>A directory with documents in two subdirectories and at the top, a subdirectory
  without any, and a directory of the skip list; a root node that is not loaded yet; a
  loader whose \<open>List\<close> fails.\<close>

definition sampleFs :: fsnode where
  "sampleFs =
     FsDir [(''.git'', FsDir [(''c.md'', FsFile)]),
            (''A'', FsDir [(''y.md'', FsFile)]),
            (''a.md'', FsFile),
            (''b'', FsDir [(''x.md'', FsFile)]),
            (''docs'', FsDir [(''sub'', FsDir [(''readme.txt'', FsFile)])])]"

definition NewRoot :: "string \<Rightarrow> 'l option \<Rightarrow> 'l node" where
  "NewRoot name l = Node name [] True True [] l False"

definition failingList :: "unit \<Rightarrow> string \<Rightarrow> unit \<Rightarrow> (error + unit node list) \<times> unit" where
  "failingList l path w = (Inl (IOError path), w)"

definition fixedList :: "unit \<Rightarrow> string \<Rightarrow> unit \<Rightarrow> (error + unit node list) \<times> unit" where
  "fixedList l path w =
     (Inr [Node ''b.md'' (joinPath path ''b.md'') False False [] None False,
           Node ''A'' (joinPath path ''A'') True False [] None False], w)"

text \<open>The cache of a new loader, and a directory \<open>docs\<close> whose only file is
  \<open>docs/sub/readme.txt\<close>.\<close>

definition emptyCache :: cache where
  "emptyCache = Map.empty"

definition docsOnlyText :: fsnode where
  "docsOnlyText = FsDir [(''sub'', FsDir [(''readme.txt'', FsFile)])]"





text \<open>
  A lower-casing that does what \<open>strings.ToLower\<close> does on ASCII letters, on the Kelvin
  sign U+212A (the bytes E2 84 AA, lower case \<open>k\<close>) and on U+023A (the bytes C8 BA, lower
  case U+2C65, the bytes E2 B1 A5); a text with the Kelvin sign on its first line and
  \<open>x\<close> on its second; a text with U+023A twice before \<open>x\<close>.
\<close>

fun goLower :: "string \<Rightarrow> string" where
  "goLower [] = []"
| "goLower [c] = [lowerByte c]"
| "goLower [c, c'] =
     (if [c, c'] = [CHR 0xC8, CHR 0xBA] then [CHR 0xE2, CHR 0xB1, CHR 0xA5]
      else lowerByte c # goLower [c'])"
| "goLower (c # c' # c'' # rest) =
     (if [c, c', c''] = [CHR 0xE2, CHR 0x84, CHR 0xAA] then CHR ''k'' # goLower rest
      else if [c, c'] = [CHR 0xC8, CHR 0xBA] then [CHR 0xE2, CHR 0xB1, CHR 0xA5] @ goLower (c'' # rest)
      else lowerByte c # goLower (c' # c'' # rest))"

definition kelvinText :: string where
  "kelvinText = [CHR 0xE2, CHR 0x84, CHR 0xAA, newline, CHR ''x'']"

definition strokeText :: string where
  "strokeText = [CHR 0xC8, CHR 0xBA, CHR 0xC8, CHR 0xBA, CHR ''x'']"

section \<open>Properties of the search\<close>

lemma strIndex_first:
  "strIndex s sub = Some pos \<Longrightarrow> j < pos \<Longrightarrow> take (length sub) (drop j s) \<noteq> sub"
proof (induction s arbitrary: pos j)
  case Nil
  then show ?case by (simp split: if_splits)
next
  case (Cons c cs)
  from Cons.prems have np: "\<not> hasPrefix (c # cs) sub" by (auto split: if_splits)
  with Cons.prems obtain q where q: "strIndex cs sub = Some q" "pos = Suc q" by auto
  show ?case
  proof (cases j)
    case 0
    with np show ?thesis by (simp add: hasPrefix_take)
  next
    case (Suc i)
    with Cons.prems q have "i < q" by simp
    from Cons.IH [OF q(1) this] Suc show ?thesis by simp
  qed
qed

lemma searchLoop_scan:
  "lq \<noteq> [] \<Longrightarrow> length lc \<le> length st \<Longrightarrow>
   searchLoop st lc lq off acc =
     Some (Inr (acc @ map (\<lambda>p. countNewlines (take p st)) (scanPositions lc lq off)))"
proof (induction lc lq off arbitrary: acc rule: scanPositions.induct)
  case (1 lc lq offset)
  show ?case
  proof (cases "strIndex (drop offset lc) lq")
    case None
    with "1.prems" show ?thesis
      by (subst searchLoop.simps, subst scanPositions.simps) simp
  next
    case (Some pos)
    from "1.IH" [OF "1.prems"(1) Some "1.prems"]
    have ih: "\<And>acc. searchLoop st lc lq (offset + pos + length lq) acc =
        Some (Inr (acc @ map (\<lambda>p. countNewlines (take p st))
                           (scanPositions lc lq (offset + pos + length lq))))" .
    from strIndex_Some [OF Some] have "pos + length lq \<le> length lc - offset"
      by simp
    with "1.prems" have inside: "\<not> length st < offset + pos"
      by (cases lq) auto
    show ?thesis
      using Some "1.prems"(1) inside
      by (subst searchLoop.simps, subst scanPositions.simps) (simp add: ih Let_def)
  qed
qed

lemma scanPositions_ge: "p \<in> set (scanPositions lc lq off) \<Longrightarrow> off \<le> p"
proof (induction lc lq off rule: scanPositions.induct)
  case (1 lc lq offset)
  from "1.prems" have ne: "lq \<noteq> []" by (auto simp: scanPositions.simps [of lc lq offset] split: if_splits)
  show ?case
  proof (cases "strIndex (drop offset lc) lq")
    case None
    with "1.prems" ne show ?thesis by (simp add: scanPositions.simps [of lc lq offset])
  next
    case (Some pos)
    with "1.prems" ne have "p = offset + pos \<or> p \<in> set (scanPositions lc lq (offset + pos + length lq))"
      by (simp add: scanPositions.simps [of lc lq offset])
    then show ?thesis
      using "1.IH" [OF ne Some] by auto
  qed
qed

lemma scanPositions_occurrence:
  "p \<in> set (scanPositions lc lq off) \<Longrightarrow> take (length lq) (drop p lc) = lq"
proof (induction lc lq off rule: scanPositions.induct)
  case (1 lc lq offset)
  from "1.prems" have ne: "lq \<noteq> []" by (auto simp: scanPositions.simps [of lc lq offset] split: if_splits)
  show ?case
  proof (cases "strIndex (drop offset lc) lq")
    case None
    with "1.prems" ne show ?thesis by (simp add: scanPositions.simps [of lc lq offset])
  next
    case (Some pos)
    with "1.prems" ne have "p = offset + pos \<or> p \<in> set (scanPositions lc lq (offset + pos + length lq))"
      by (simp add: scanPositions.simps [of lc lq offset])
    then show ?thesis
    proof
      assume "p = offset + pos"
      with strIndex_Some [OF Some] show ?thesis by (simp add: add.commute)
    next
      assume "p \<in> set (scanPositions lc lq (offset + pos + length lq))"
      with "1.IH" [OF ne Some] show ?thesis by simp
    qed
  qed
qed

lemma scanPositions_apart:
  "sorted_wrt (\<lambda>p p'. p + length lq \<le> p') (scanPositions lc lq off)"
proof (induction lc lq off rule: scanPositions.induct)
  case (1 lc lq offset)
  show ?case
  proof (cases "lq = []")
    case True
    then show ?thesis by (simp add: scanPositions.simps [of lc "[]" offset])
  next
    case ne: False
    show ?thesis
    proof (cases "strIndex (drop offset lc) lq")
      case None
      with ne show ?thesis by (simp add: scanPositions.simps [of lc lq offset])
    next
      case (Some pos)
      have "\<forall>p'\<in>set (scanPositions lc lq (offset + pos + length lq)). offset + pos + length lq \<le> p'"
        using scanPositions_ge by blast
      with "1.IH" [OF ne Some] Some ne show ?thesis
        by (subst scanPositions.simps) simp
    qed
  qed
qed



lemma findSearchMatches_scan:
  assumes "length (lower (strip content)) \<le> length (strip content)"
    and "trimSpace query \<noteq> [] \<longrightarrow> lower (trimSpace query) \<noteq> []"
  shows "findSearchMatches strip lower content query =
     Inr (if trimSpace query = [] \<or> content = [] then []
          else map (\<lambda>p. countNewlines (take p (strip content)))
                 (scanPositions (lower (strip content)) (lower (trimSpace query)) 0))"
  using assms by (simp add: findSearchMatches_def Let_def searchLoop_scan)

lemma gotoSearchMatch_in_range:
  "searchIndex m < int (length (searchMatches m)) \<Longrightarrow>
   \<exists>vp. gotoSearchMatch e m = Inr (m\<lparr>contentVP := vp\<rparr>)"
proof -
  assume r: "searchIndex m < int (length (searchMatches m))"
  have same: "m = m\<lparr>contentVP := contentVP m\<rparr>" by simp
  show ?thesis
  proof (cases "searchMatches m = [] \<or> searchIndex m < 0 \<or> countNewlines (renderedContent m) + 1 \<le> 0")
    case True
    then have "gotoSearchMatch e m = Inr m"
      by (auto simp: gotoSearchMatch_def Let_def)
    with same show ?thesis by metis
  next
    case False
    with r show ?thesis
      by (auto simp: gotoSearchMatch_def Let_def)
  qed
qed

lemma absInt_abs: "absInt v = abs v"
  by simp

lemma closestLoop_best:
  assumes "ms = pre @ rest" "length pre = i" "bi < i" "bd = abs (ms ! bi - line)"
    "\<forall>j<i. bd \<le> abs (ms ! j - line)" "\<forall>j<bi. bd < abs (ms ! j - line)"
  shows "bestAt ms line (closestLoop rest line i bi bd)"
  using assms
proof (induction rest arbitrary: pre i bi bd)
  case Nil
  then show ?case by (simp add: bestAt_def)
next
  case (Cons x rest)
  have ms: "ms = (pre @ [x]) @ rest" and len: "length (pre @ [x]) = Suc i"
    using Cons.prems(1,2) by simp_all
  have x: "ms ! i = x"
    using Cons.prems(1,2) by (simp add: nth_append)
  show ?case
  proof (cases "abs (x - line) < bd")
    case True
    have a: "\<forall>j<Suc i. abs (x - line) \<le> abs (ms ! j - line)"
    proof (intro allI impI)
      fix j assume "j < Suc i"
      then consider "j < i" | "j = i" by linarith
      then show "abs (x - line) \<le> abs (ms ! j - line)"
      proof cases
        case 1
        with Cons.prems(5) True show ?thesis by fastforce
      next
        case 2
        with x show ?thesis by simp
      qed
    qed
    have b: "\<forall>j<i. abs (x - line) < abs (ms ! j - line)"
      using Cons.prems(5) True by fastforce
    have c: "abs (x - line) = abs (ms ! i - line)" using x by simp
    have "bestAt ms line (closestLoop rest line (Suc i) i (abs (x - line)))"
      by (rule Cons.IH [OF ms len _ c a b]) simp
    with True show ?thesis by (simp add: Let_def absInt_abs del: absInt.simps)
  next
    case False
    have a: "\<forall>j<Suc i. bd \<le> abs (ms ! j - line)"
    proof (intro allI impI)
      fix j assume "j < Suc i"
      then consider "j < i" | "j = i" by linarith
      then show "bd \<le> abs (ms ! j - line)"
      proof cases
        case 1
        with Cons.prems(5) show ?thesis by simp
      next
        case 2
        with x False show ?thesis by simp
      qed
    qed
    from Cons.prems(3) have "bi < Suc i" by simp
    from Cons.IH [OF ms len this Cons.prems(4) a Cons.prems(6)] False
    show ?thesis by (simp add: Let_def absInt_abs del: absInt.simps)
  qed
qed

lemma closestMatchIndex_best:
  assumes "ms \<noteq> []"
  shows "bestAt ms line (closestMatchIndex ms line)"
proof -
  from assms obtain m0 rest where ms: "ms = m0 # rest" by (cases ms) auto
  have "ms = [m0] @ rest" "length [m0] = 1" "(0::nat) < 1" "abs (m0 - line) = abs (ms ! 0 - line)"
       "\<forall>j<(1::nat). abs (m0 - line) \<le> abs (ms ! j - line)" "\<forall>j<(0::nat). abs (m0 - line) < abs (ms ! j - line)"
    using ms by simp_all
  from closestLoop_best [OF this]
  show ?thesis using ms by (simp add: closestMatchIndex_def absInt_abs del: absInt.simps)
qed

lemma sample_matches:
  "findSearchMatches (\<lambda>s. s) toLower sampleText ''hello'' = Inr [0, 0, 1]"
  by (simp add: sampleText_def findSearchMatches_def trimSpace_def isSpace_def toLower_def lowerByte_def
      searchLoop.simps countNewlines_def newline_def Let_def)

text \<open>
  Claim C4. When the content changes while a query is active and the line of the previous
  current match is known, \<open>onContentChanged\<close> returns, the match list is the new one
  and the current index is the one \<open>closestMatchIndex\<close> picks: the index of a match
  whose line is nearest to the previous line, the lowest such index. For the previous line
  5 and the new lines 2, 6, 9 that is index 1, the match on line 6.
\<close>

theorem closest_match_reconciliation:
  assumes "searchQuery m \<noteq> []"
    and "0 \<le> searchIndex m" and "searchIndex m < int (length (searchMatches m))"
    and "prevLine = searchMatches m ! nat (searchIndex m)" and "0 \<le> prevLine"
    and "findSearchMatches (ansiStrip e) (strToLower e) (renderedContent m) (searchQuery m) = Inr ms"
    and "ms \<noteq> []"
  shows "(\<exists>m'. onContentChanged e m = Inr m' \<and> searchMatches m' = ms
            \<and> searchIndex m' = int (closestMatchIndex ms prevLine))
       \<and> bestAt ms prevLine (closestMatchIndex ms prevLine)
       \<and> closestMatchIndex [2, 6, 9] 5 = 1 \<and> [2, 6, 9 :: int] ! closestMatchIndex [2, 6, 9] 5 = 6"
proof -
  let ?k = "closestMatchIndex ms prevLine"
  let ?m2 = "m\<lparr>searchMatches := ms, searchIndex := int ?k, err := None\<rparr>"
  have best: "bestAt ms prevLine ?k"
    using assms(7) by (rule closestMatchIndex_best)
  then have "searchIndex ?m2 < int (length (searchMatches ?m2))"
    by (simp add: bestAt_def)
  from gotoSearchMatch_in_range [OF this, of e]
  obtain vp where g: "gotoSearchMatch e ?m2 = Inr (?m2\<lparr>contentVP := vp\<rparr>)" by blast
  have ne: "searchMatches m \<noteq> []" using assms(2,3) by auto
  have "onContentChanged e m = gotoSearchMatch e ?m2"
    using assms ne by (simp add: onContentChanged_def Let_def)
  with g have "onContentChanged e m = Inr (?m2\<lparr>contentVP := vp\<rparr>)" by simp
  then have "\<exists>m'. onContentChanged e m = Inr m' \<and> searchMatches m' = ms \<and> searchIndex m' = int ?k"
    by simp
  moreover have "closestMatchIndex [2, 6, 9] 5 = 1"
    by (simp add: closestMatchIndex_def)
  ultimately show ?thesis using best by simp
qed

theorem closest_match_reconciliation_witness:
  "\<exists>m'. onContentChanged plainEnv (sampleModel\<lparr>searchMatches := [0, 5, 7], searchIndex := 1\<rparr>) = Inr m'
        \<and> searchMatches m' = [0, 0, 1] \<and> searchIndex m' = 2"
proof -
  let ?m = "sampleModel\<lparr>searchMatches := [0, 5, 7], searchIndex := 1\<rparr>"
  have f: "findSearchMatches (ansiStrip plainEnv) (strToLower plainEnv) (renderedContent ?m) (searchQuery ?m) = Inr [0, 0, 1]"
    using sample_matches by (simp add: plainEnv_def sampleModel_def)
  have k: "closestMatchIndex [0, 0, 1] 5 = 2"
    by (simp add: closestMatchIndex_def)
  from closest_match_reconciliation [of ?m 5 plainEnv "[0, 0, 1]", OF _ _ _ _ _ f]
  show ?thesis by (simp add: sampleModel_def k)
qed

lemma nextSearchMatch_step:
  assumes "searchMatches m \<noteq> []" "0 \<le> searchIndex m"
  shows "\<exists>vp. nextSearchMatch e m =
           Inr (m\<lparr>searchIndex := (searchIndex m + 1) mod int (length (searchMatches m)),
                   err := None, contentVP := vp\<rparr>)"
proof -
  let ?m1 = "m\<lparr>searchIndex := (searchIndex m + 1) mod int (length (searchMatches m)), err := None\<rparr>"
  have "searchIndex ?m1 < int (length (searchMatches ?m1))"
    using assms by simp
  from gotoSearchMatch_in_range [OF this, of e]
  obtain vp where "gotoSearchMatch e ?m1 = Inr (?m1\<lparr>contentVP := vp\<rparr>)" by blast
  moreover have "nextSearchMatch e m = gotoSearchMatch e ?m1"
    using assms by (simp add: nextSearchMatch_def Let_def)
  ultimately show ?thesis by auto
qed

text \<open>
  Claim C5. The case-insensitive search for \<open>hello\<close> in the stripped text
  \<open>Hello hello world\<close>, line feed, \<open>hello again\<close> gives the match lines 0, 0, 1. With
  these matches and the current index 0, \<open>nextSearchMatch\<close> goes to index 1, then to
  index 2, then back to index 0. With an empty match list \<open>nextSearchMatch\<close> and
  \<open>previousSearchMatch\<close> return the model as it was.
\<close>

theorem search_matching_and_navigation:
  "(strip sampleText = sampleText \<longrightarrow> findSearchMatches strip toLower sampleText ''hello'' = Inr [0, 0, 1])
   \<and> (searchMatches m = [0, 0, 1] \<and> searchIndex m = 0 \<longrightarrow>
        (\<exists>m1 m2 m3.
            nextSearchMatch e m = Inr m1 \<and> searchIndex m1 = 1 \<and> searchMatches m1 = [0, 0, 1]
          \<and> nextSearchMatch e m1 = Inr m2 \<and> searchIndex m2 = 2 \<and> searchMatches m2 = [0, 0, 1]
          \<and> nextSearchMatch e m2 = Inr m3 \<and> searchIndex m3 = 0 \<and> searchMatches m3 = [0, 0, 1]))
   \<and> (searchMatches m = [] \<longrightarrow> nextSearchMatch e m = Inr m \<and> previousSearchMatch e m = Inr m)"
proof (intro conjI impI)
  assume "strip sampleText = sampleText"
  then show "findSearchMatches strip toLower sampleText ''hello'' = Inr [0, 0, 1]"
    by (simp add: sampleText_def findSearchMatches_def trimSpace_def isSpace_def toLower_def
        lowerByte_def searchLoop.simps countNewlines_def newline_def Let_def)
next
  assume a: "searchMatches m = [0, 0, 1] \<and> searchIndex m = 0"
  then have "searchMatches m \<noteq> []" "0 \<le> searchIndex m" by simp_all
  from nextSearchMatch_step [OF this, of e] a
  obtain m1 where m1: "nextSearchMatch e m = Inr m1" "searchIndex m1 = 1" "searchMatches m1 = [0, 0, 1]"
    by auto
  then have "searchMatches m1 \<noteq> []" "0 \<le> searchIndex m1" by simp_all
  from nextSearchMatch_step [OF this, of e] m1
  obtain m2 where m2: "nextSearchMatch e m1 = Inr m2" "searchIndex m2 = 2" "searchMatches m2 = [0, 0, 1]"
    by auto
  then have "searchMatches m2 \<noteq> []" "0 \<le> searchIndex m2" by simp_all
  from nextSearchMatch_step [OF this, of e] m2
  obtain m3 where m3: "nextSearchMatch e m2 = Inr m3" "searchIndex m3 = 0" "searchMatches m3 = [0, 0, 1]"
    by auto
  from m1 m2 m3
  show "\<exists>m1 m2 m3.
            nextSearchMatch e m = Inr m1 \<and> searchIndex m1 = 1 \<and> searchMatches m1 = [0, 0, 1]
          \<and> nextSearchMatch e m1 = Inr m2 \<and> searchIndex m2 = 2 \<and> searchMatches m2 = [0, 0, 1]
          \<and> nextSearchMatch e m2 = Inr m3 \<and> searchIndex m3 = 0 \<and> searchMatches m3 = [0, 0, 1]"
    by blast
next
  assume "searchMatches m = []"
  then show "nextSearchMatch e m = Inr m" by (simp add: nextSearchMatch_def)
next
  assume "searchMatches m = []"
  then show "previousSearchMatch e m = Inr m" by (simp add: previousSearchMatch_def)
qed

theorem search_matching_and_navigation_witness:
  "findSearchMatches (ansiStrip plainEnv) toLower sampleText ''hello'' = Inr [0, 0, 1]
   \<and> (\<exists>m1 m2 m3.
          nextSearchMatch plainEnv sampleModel = Inr m1 \<and> searchIndex m1 = 1
        \<and> nextSearchMatch plainEnv m1 = Inr m2 \<and> searchIndex m2 = 2
        \<and> nextSearchMatch plainEnv m2 = Inr m3 \<and> searchIndex m3 = 0)
   \<and> nextSearchMatch plainEnv (sampleModel\<lparr>searchMatches := []\<rparr>) = Inr (sampleModel\<lparr>searchMatches := []\<rparr>)
   \<and> previousSearchMatch plainEnv (sampleModel\<lparr>searchMatches := []\<rparr>) = Inr (sampleModel\<lparr>searchMatches := []\<rparr>)"
proof -
  have s: "ansiStrip plainEnv sampleText = sampleText"
    by (simp add: plainEnv_def)
  have a: "searchMatches sampleModel = [0, 0, 1] \<and> searchIndex sampleModel = 0"
    by (simp add: sampleModel_def)
  have b: "searchMatches (sampleModel\<lparr>searchMatches := []\<rparr>) = []"
    by simp
  from search_matching_and_navigation [of "ansiStrip plainEnv" sampleModel plainEnv] s a
  have 1: "findSearchMatches (ansiStrip plainEnv) toLower sampleText ''hello'' = Inr [0, 0, 1]"
    and 2: "\<exists>m1 m2 m3.
          nextSearchMatch plainEnv sampleModel = Inr m1 \<and> searchIndex m1 = 1
        \<and> nextSearchMatch plainEnv m1 = Inr m2 \<and> searchIndex m2 = 2
        \<and> nextSearchMatch plainEnv m2 = Inr m3 \<and> searchIndex m3 = 0"
    by blast+
  from search_matching_and_navigation [of "ansiStrip plainEnv" "sampleModel\<lparr>searchMatches := []\<rparr>" plainEnv] b
  have 3: "nextSearchMatch plainEnv (sampleModel\<lparr>searchMatches := []\<rparr>) = Inr (sampleModel\<lparr>searchMatches := []\<rparr>)
     \<and> previousSearchMatch plainEnv (sampleModel\<lparr>searchMatches := []\<rparr>) = Inr (sampleModel\<lparr>searchMatches := []\<rparr>)"
    by blast
  from 1 2 3 show ?thesis by blast
qed

lemma trimSpace_idem: "trimSpace (trimSpace s) = trimSpace s"
proof -
  define t where "t = dropWhile isSpace s"
  define u where "u = rev (dropWhile isSpace (rev t))"
  have tu: "t = u @ rev (takeWhile isSpace (rev t))"
  proof -
    have "rev (dropWhile isSpace (rev t)) @ rev (takeWhile isSpace (rev t))
            = rev (takeWhile isSpace (rev t) @ dropWhile isSpace (rev t))"
      by (simp only: rev_append)
    also have "\<dots> = t"
      by (simp only: takeWhile_dropWhile_id rev_rev_ident)
    finally show ?thesis by (simp only: u_def)
  qed
  have hd_t: "t \<noteq> [] \<Longrightarrow> \<not> isSpace (hd t)"
    unfolding t_def by (rule hd_dropWhile)
  have du: "dropWhile isSpace u = u"
  proof (cases u)
    case Nil
    then show ?thesis by simp
  next
    case (Cons a w)
    with tu have "t = a # (w @ rev (takeWhile isSpace (rev t)))" by simp
    then have "t \<noteq> []" "hd t = a" by (metis list.distinct(1), metis list.sel(1))
    with hd_t have "\<not> isSpace a" by auto
    with Cons show ?thesis by simp
  qed
  have "trimSpace s = u" by (simp add: trimSpace_def t_def u_def)
  moreover have "trimSpace u = u"
    using du by (simp add: trimSpace_def u_def)
  ultimately show ?thesis by simp
qed

lemma findSearchMatches_trim:
  "findSearchMatches strip lower content (trimSpace q) = findSearchMatches strip lower content q"
  by (simp add: findSearchMatches_def trimSpace_idem)

text \<open>
  Claim C8. When the search finds nothing, \<open>performSearch\<close> and \<open>onContentChanged\<close>
  both return with an empty match list, the current index \<open>-1\<close> and the "no match"
  status in the error slot, which is not an error of the operating system. The query is
  kept: \<open>performSearch\<close> stores the query it was given, trimmed of white space, and
  \<open>onContentChanged\<close> leaves the stored query alone. Nothing else in the model changes.
\<close>

theorem no_match_condition:
  "(findSearchMatches (ansiStrip e) (strToLower e) (renderedContent m) q = Inr [] \<longrightarrow>
      performSearch e q r m =
        Inr (m\<lparr>searchQuery := trimSpace q, searchMatches := [], searchIndex := - 1,
                err := Some (NoMatchError (trimSpace q))\<rparr>))
   \<and> (searchQuery m \<noteq> []
        \<and> findSearchMatches (ansiStrip e) (strToLower e) (renderedContent m) (searchQuery m) = Inr [] \<longrightarrow>
      onContentChanged e m =
        Inr (m\<lparr>searchMatches := [], searchIndex := - 1, err := Some (NoMatchError (searchQuery m))\<rparr>))"
  by (simp add: performSearch_def onContentChanged_def Let_def findSearchMatches_trim)

theorem no_match_condition_witness:
  "performSearch plainEnv ''zebra'' True sampleModel =
     Inr (sampleModel\<lparr>searchQuery := ''zebra'', searchMatches := [], searchIndex := - 1,
            err := Some (NoMatchError ''zebra'')\<rparr>)
   \<and> onContentChanged plainEnv (sampleModel\<lparr>renderedContent := ''nothing here''\<rparr>) =
     Inr (sampleModel\<lparr>renderedContent := ''nothing here'', searchMatches := [], searchIndex := - 1,
            err := Some (NoMatchError ''hello'')\<rparr>)"
proof -
  have t: "trimSpace ''zebra'' = ''zebra''"
    by (simp add: trimSpace_def isSpace_def)
  have f1: "findSearchMatches (ansiStrip plainEnv) (strToLower plainEnv) (renderedContent sampleModel) ''zebra'' = Inr []"
    by (simp add: plainEnv_def sampleModel_def sampleText_def findSearchMatches_def trimSpace_def isSpace_def
        toLower_def lowerByte_def searchLoop.simps countNewlines_def newline_def Let_def)
  let ?m = "sampleModel\<lparr>renderedContent := ''nothing here''\<rparr>"
  have f2: "searchQuery ?m \<noteq> []
      \<and> findSearchMatches (ansiStrip plainEnv) (strToLower plainEnv) (renderedContent ?m) (searchQuery ?m) = Inr []"
    by (simp add: plainEnv_def sampleModel_def findSearchMatches_def trimSpace_def isSpace_def
        toLower_def lowerByte_def searchLoop.simps countNewlines_def newline_def Let_def)
  from no_match_condition [of plainEnv sampleModel "''zebra''" True] f1 t
  have 1: "performSearch plainEnv ''zebra'' True sampleModel =
     Inr (sampleModel\<lparr>searchQuery := ''zebra'', searchMatches := [], searchIndex := - 1,
            err := Some (NoMatchError ''zebra'')\<rparr>)"
    by simp
  from no_match_condition [of plainEnv ?m "''zebra''" True] f2
  have 2: "onContentChanged plainEnv ?m =
     Inr (?m\<lparr>searchMatches := [], searchIndex := - 1, err := Some (NoMatchError (searchQuery ?m))\<rparr>)"
    by blast
  have "searchQuery ?m = ''hello''" by (simp add: sampleModel_def)
  with 1 2 show ?thesis by simp
qed

lemma scanPositions_first:
  assumes "scanPositions lc lq off = p # ps" "off \<le> j" "j < p"
  shows "take (length lq) (drop j lc) \<noteq> lq"
proof -
  from assms(1) have ne: "lq \<noteq> []"
    by (auto simp: scanPositions.simps [of lc lq off] split: if_splits)
  with assms(1) obtain pos where pos: "strIndex (drop off lc) lq = Some pos" "p = off + pos"
    by (auto simp: scanPositions.simps [of lc lq off] split: option.splits)
  from assms(2,3) pos(2) have "j - off < pos" by simp
  from strIndex_first [OF pos(1) this] assms(2) show ?thesis
    by (simp add: add.commute)
qed

text \<open>
  Where the lower-casing keeps the stripped content at its length (as on ASCII text),
  \<open>findSearchMatches\<close> returns, and it reports for each position that \<open>scanPositions\<close>
  finds in the lower-cased content the number of line feeds of the stripped content before
  that position. The positions are occurrences of the query, none is skipped before the
  first one, and each starts at or after the end of the one before: \<open>aa\<close> in \<open>aaa\<close> is
  found once.
\<close>

lemma search_scan_length_kept:
  "(length (lower (strip content)) = length (strip content)
      \<and> (trimSpace query \<noteq> [] \<longrightarrow> lower (trimSpace query) \<noteq> []) \<longrightarrow>
    findSearchMatches strip lower content query =
      Inr (if trimSpace query = [] \<or> content = [] then []
           else map (\<lambda>p. countNewlines (take p (strip content)))
                  (scanPositions (lower (strip content)) (lower (trimSpace query)) 0)))
   \<and> sorted_wrt (\<lambda>p p'. p + length lq \<le> p') (scanPositions lc lq off)
   \<and> (\<forall>p\<in>set (scanPositions lc lq off). off \<le> p \<and> take (length lq) (drop p lc) = lq)
   \<and> (\<forall>p ps j. scanPositions lc lq off = p # ps \<and> off \<le> j \<and> j < p \<longrightarrow>
          take (length lq) (drop j lc) \<noteq> lq)
   \<and> findSearchMatches (\<lambda>s. s) toLower ''aaa'' ''aa'' = Inr [0]"
proof (intro conjI impI)
  assume "length (lower (strip content)) = length (strip content)
      \<and> (trimSpace query \<noteq> [] \<longrightarrow> lower (trimSpace query) \<noteq> [])"
  then show "findSearchMatches strip lower content query =
      Inr (if trimSpace query = [] \<or> content = [] then []
           else map (\<lambda>p. countNewlines (take p (strip content)))
                  (scanPositions (lower (strip content)) (lower (trimSpace query)) 0))"
    by (intro findSearchMatches_scan) simp_all
next
  show "sorted_wrt (\<lambda>p p'. p + length lq \<le> p') (scanPositions lc lq off)"
    by (rule scanPositions_apart)
  show "\<forall>p\<in>set (scanPositions lc lq off). off \<le> p \<and> take (length lq) (drop p lc) = lq"
    using scanPositions_ge scanPositions_occurrence by blast
  show "\<forall>p ps j. scanPositions lc lq off = p # ps \<and> off \<le> j \<and> j < p \<longrightarrow>
          take (length lq) (drop j lc) \<noteq> lq"
    using scanPositions_first by blast
  show "findSearchMatches (\<lambda>s. s) toLower ''aaa'' ''aa'' = Inr [0]"
    by (simp add: findSearchMatches_def trimSpace_def isSpace_def toLower_def lowerByte_def
        searchLoop.simps countNewlines_def newline_def Let_def)
qed

text \<open>
  Claim C10 at a text outside ASCII. The Kelvin sign takes three bytes and its lower case
  \<open>k\<close> one, so the query \<open>x\<close>, which stands on the second line of the stripped text at
  position 4 with one line feed before it, is found at position 2 of the lower-cased text,
  and the scan reports the line feeds of the first two bytes of the stripped text: line 0.
  Where the lower-cased text is longer than the stripped one, the position of the match
  lies beyond the stripped text and the slice panics.
\<close>

theorem search_line_number_divergence:
  "findSearchMatches (\<lambda>s. s) goLower kelvinText ''x'' = Inr [0]
   \<and> strIndex kelvinText ''x'' = Some 4
   \<and> countNewlines (take 4 kelvinText) = 1
   \<and> goLower kelvinText = [CHR ''k'', newline, CHR ''x'']
   \<and> findSearchMatches (\<lambda>s. s) goLower strokeText ''x'' = Inl SliceOutOfRange
   \<and> length (goLower strokeText) = 7 \<and> length strokeText = 5"
  by (simp add: findSearchMatches_def trimSpace_def isSpace_def kelvinText_def strokeText_def
      lowerByte_def searchLoop.simps countNewlines_def newline_def Let_def)

section \<open>Properties of the tree\<close>

lemma inOrder_nodeLess: "inOrder a b \<longleftrightarrow> \<not> nodeLess b a"
  by (auto simp: inOrder_def nodeLess_def)

lemma nodeLess_inOrder: "nodeLess a b \<Longrightarrow> inOrder a b"
  by (auto simp: inOrder_def nodeLess_def split: if_splits)

lemma inOrder_trans: "inOrder a b \<Longrightarrow> inOrder b c \<Longrightarrow> inOrder a c"
  by (auto simp: inOrder_def)

lemma levelOrdered_insertBy:
  "levelOrdered ys \<Longrightarrow> levelOrdered (insertBy nodeLess x ys)"
proof (induction ys)
  case Nil
  then show ?case by (simp add: levelOrdered_def)
next
  case (Cons y ys)
  from Cons.prems have tl: "levelOrdered ys" and hd: "\<forall>z\<in>set ys. inOrder y z"
    by (simp_all add: levelOrdered_def)
  show ?case
  proof (cases "nodeLess y x")
    case True
    then have "inOrder y x" by (rule nodeLess_inOrder)
    with hd have "\<forall>z\<in>set (insertBy nodeLess x ys). inOrder y z"
      by (simp add: set_insertBy)
    with Cons.IH [OF tl] True show ?thesis
      by (simp add: levelOrdered_def)
  next
    case False
    then have xy: "inOrder x y" by (simp add: inOrder_nodeLess)
    with hd have "\<forall>z\<in>set ys. inOrder x z"
      using inOrder_trans by blast
    with xy Cons.prems False show ?thesis
      by (simp add: levelOrdered_def)
  qed
qed

lemma levelOrdered_sortSlice: "levelOrdered (sortSlice nodeLess cs)"
proof (induction cs)
  case Nil
  show ?case by (simp add: sortSlice_def levelOrdered_def)
next
  case (Cons c cs)
  then have "levelOrdered (insertBy nodeLess c (sortSlice nodeLess cs))"
    by (rule levelOrdered_insertBy)
  then show ?case by (simp add: sortSlice_def)
qed

lemma mset_insertBy: "mset (insertBy lt x ys) = add_mset x (mset ys)"
  by (induction ys) auto

lemma mset_sortSlice: "mset (sortSlice lt xs) = mset xs"
  by (induction xs) (simp_all add: sortSlice_def mset_insertBy)

lemma levelOrdered_map:
  assumes "levelOrdered cs" "\<And>c. Name (f c) = Name c" "\<And>c. IsDir (f c) = IsDir c"
  shows "levelOrdered (map f cs)"
proof -
  have "inOrder (f a) (f b) = inOrder a b" for a b
    by (simp add: inOrder_def assms(2,3))
  with assms(1) show ?thesis
    by (simp add: levelOrdered_def sorted_wrt_map)
qed

lemma childless_ordered: "Children c = [] \<Longrightarrow> treeOrdered c"
  by (cases c) (simp add: levelOrdered_def)

lemma SortRecursive_Name [simp]: "Name (SortRecursive n) = Name n"
  by (cases n) simp

lemma SortRecursive_IsDir [simp]: "IsDir (SortRecursive n) = IsDir n"
  by (cases n) simp

lemma sortTree_Name [simp]: "Name (sortTree n) = Name n"
  by (cases n) simp

lemma sortTree_IsDir [simp]: "IsDir (sortTree n) = IsDir n"
  by (cases n) simp

lemma treeOrdered_SortRecursive: "treeOrdered (SortRecursive n)"
proof (induction n rule: SortRecursive.induct)
  case (1 nm p d opn cs l ld)
  let ?f = "\<lambda>child. if Children child \<noteq> [] then SortRecursive child else child"
  have "levelOrdered (map ?f (sortSlice nodeLess cs))"
    by (rule levelOrdered_map [OF levelOrdered_sortSlice]) simp_all
  moreover have "treeOrdered (?f c)" if "c \<in> set (sortSlice nodeLess cs)" for c
    using that "1.IH" [of c] by (simp add: childless_ordered)
  then have "\<forall>c\<in>set (map ?f (sortSlice nodeLess cs)). treeOrdered c"
    unfolding set_map by blast
  ultimately show ?case
    unfolding SortRecursive.simps treeOrdered.simps by blast
qed

lemma treeOrdered_sortTree: "treeOrdered (sortTree n)"
proof (induction n rule: sortTree.induct)
  case (1 nm p d opn cs l ld)
  show ?case
  proof (cases "cs = []")
    case True
    then show ?thesis by (simp add: levelOrdered_def)
  next
    case False
    have "levelOrdered (map sortTree (sortSlice nodeLess cs))"
      by (rule levelOrdered_map [OF levelOrdered_sortSlice]) simp_all
    moreover have "treeOrdered (sortTree c)" if "c \<in> set (sortSlice nodeLess cs)" for c
      using that "1.IH" [OF False, of c] by simp
    then have "\<forall>c\<in>set (map sortTree (sortSlice nodeLess cs)). treeOrdered c"
      unfolding set_map by blast
    ultimately have "treeOrdered (Node nm p d opn (map sortTree (sortSlice nodeLess cs)) l ld)"
      unfolding treeOrdered.simps by blast
    with False show ?thesis by (simp only: sortTree.simps if_False)
  qed
qed


lemma setLoader_sel [simp]:
  "Name (setLoader l c) = Name c" "IsDir (setLoader l c) = IsDir c"
  "Children (setLoader l c) = Children c"
  by (cases c; simp)+

lemma treeOrdered_Children: "treeOrdered c \<longleftrightarrow> levelOrdered (Children c) \<and> (\<forall>x\<in>set (Children c). treeOrdered x)"
  by (cases c) simp

lemma treeOrdered_setLoader: "treeOrdered (setLoader l c) = treeOrdered c"
  by (cases c) simp

lemma treeOrdered_sortChildren:
  "(\<forall>c\<in>set cs. treeOrdered c) \<Longrightarrow> treeOrdered (sortChildren (Node nm p d opn cs l ld))"
  by (simp add: levelOrdered_sortSlice set_sortSlice)

lemma EnsureLoaded_ordered:
  assumes "loader n = Some l" "IsDir n" "\<not> loaded n"
    and "lst l (Path n) w = (Inr children, w')" "\<forall>c\<in>set children. treeOrdered c"
  shows "treeOrdered (fst (snd (EnsureLoaded lst n w)))"
proof -
  have "\<forall>c\<in>set (map (setLoader (loader n)) children). treeOrdered c"
    using assms(5) by (simp add: treeOrdered_setLoader)
  then have "treeOrdered (sortChildren (Node (Name n) (Path n) (IsDir n) (Open n)
      (map (setLoader (loader n)) children) (loader n) True))"
    by (rule treeOrdered_sortChildren)
  with assms(1-4) show ?thesis
    by (simp add: EnsureLoaded_def)
qed

lemma listEntries_childless:
  "listEntries entries relPath cache nodes = (Inr result, c, rd) \<Longrightarrow>
   \<forall>x\<in>set nodes. Children x = [] \<Longrightarrow> \<forall>x\<in>set (result :: 'l node list). Children x = []"
proof (induction entries relPath cache nodes arbitrary: result c rd rule: listEntries.induct)
  case (1 relPath cache nodes)
  then show ?case by simp
next
  case (2 name e rest relPath cache nodes)
  show ?case
  proof (cases "isDirEntry e")
    case False
    note nd = this
    show ?thesis
    proof (cases "isMarkdown name")
      case True
      from "2.prems"(2) have "\<forall>x\<in>set (nodes @ [Node name (join relPath name) False False [] None False :: 'l node]). Children x = []"
        by simp
      with "2.IH"(4) [OF nd _ _ this] "2.prems"(1) nd True show ?thesis
        by simp
    next
      case False
      with "2.IH"(3) [OF nd _ _ "2.prems"(2)] "2.prems"(1) nd show ?thesis
        by simp
    qed
  next
    case True
    note isd = this
    show ?thesis
    proof (cases "shouldSkipDir name")
      case True
      with "2.IH"(1) [OF isd True _ "2.prems"(2)] "2.prems"(1) isd show ?thesis
        by simp
    next
      case False
      note ns = this
      obtain r0 c0 rd0 where hm: "HasMarkdown e (join relPath name) cache = (r0, c0, rd0)"
        by (cases "HasMarkdown e (join relPath name) cache") auto
      show ?thesis
      proof (cases r0)
        case (Inl er)
        with "2.prems"(1) isd ns hm show ?thesis by (simp add: Let_def)
      next
        case (Inr has)
        let ?nodes = "if has then nodes @ [Node name (join relPath name) True False [] None False :: 'l node] else nodes"
        obtain r1 c1 rd1 where le: "listEntries rest relPath c0 ?nodes = (r1, c1, rd1)"
          by (cases "listEntries rest relPath c0 ?nodes") auto
        with "2.prems"(1) isd ns hm Inr have r1: "r1 = Inr result"
          by (simp add: Let_def)
        have ch: "\<forall>x\<in>set ?nodes. Children x = []"
          using "2.prems"(2) by simp
        have sym: "(Inr has, c0, rd0) = HasMarkdown e (join relPath name) cache"
          using hm Inr by simp
        from "2.IH"(2) [OF isd ns refl sym refl refl _ ch, of result c1 rd1] le r1
        show ?thesis by simp
      qed
    qed
  qed
qed

lemma fsList_childless:
  assumes "fsList root relPath cache = (Inr children, c)"
  shows "\<forall>x\<in>set children. treeOrdered x"
proof -
  from assms obtain entries rd where
    "listEntries entries relPath cache [] = (Inr children, c, rd)"
    by (auto simp: fsList_def List_def split: option.splits fsnode.splits prod.splits)
  from listEntries_childless [OF this] show ?thesis
    by (simp add: childless_ordered)
qed

text \<open>
  Claim C1. After each mutation that adds children the children of every node are in
  order, directories before files and each group ascending by lower-cased name, at
  every level: the tree \<open>Build\<close> returns (\<open>SortRecursive\<close>), the tree of a tag filter
  (\<open>sortTree\<close>), and a node that \<open>EnsureLoaded\<close> has just loaded, when the nodes its
  loader lists are ordered themselves, as the childless nodes of the file system's loader
  are.
\<close>

theorem sorting_invariant:
  "treeOrdered (Build rootName files)
   \<and> treeOrdered (buildFilteredTree displayRoot relPaths)
   \<and> treeOrdered (SortRecursive t) \<and> treeOrdered (sortTree t)
   \<and> (loader n = Some l \<and> IsDir n \<and> \<not> loaded n \<and> lst l (Path n) w = (Inr children, w')
        \<and> (\<forall>c\<in>set children. treeOrdered c)
      \<longrightarrow> treeOrdered (fst (snd (EnsureLoaded lst n w))))
   \<and> (loader m = Some root \<and> IsDir m \<and> \<not> loaded m \<and> fst (EnsureLoaded fsList m cache) = None
      \<longrightarrow> treeOrdered (fst (snd (EnsureLoaded fsList m cache))))"
proof (intro conjI impI)
  show "treeOrdered (Build rootName files)"
    unfolding Build_def by (rule treeOrdered_SortRecursive)
  show "treeOrdered (buildFilteredTree displayRoot relPaths)"
    unfolding buildFilteredTree_def by (rule treeOrdered_sortTree)
  show "treeOrdered (SortRecursive t)"
    by (rule treeOrdered_SortRecursive)
  show "treeOrdered (sortTree t)"
    by (rule treeOrdered_sortTree)
next
  assume "loader n = Some l \<and> IsDir n \<and> \<not> loaded n \<and> lst l (Path n) w = (Inr children, w')
        \<and> (\<forall>c\<in>set children. treeOrdered c)"
  then have "loader n = Some l" "IsDir n" "\<not> loaded n" "lst l (Path n) w = (Inr children, w')"
    "\<forall>c\<in>set children. treeOrdered c"
    by simp_all
  then show "treeOrdered (fst (snd (EnsureLoaded lst n w)))"
    by (rule EnsureLoaded_ordered)
next
  assume a: "loader m = Some root \<and> IsDir m \<and> \<not> loaded m \<and> fst (EnsureLoaded fsList m cache) = None"
  obtain r c where r: "fsList root (Path m) cache = (r, c)"
    by (cases "fsList root (Path m) cache") auto
  with a obtain children where "r = Inr children"
    by (cases r) (auto simp: EnsureLoaded_def)
  with r have f: "fsList root (Path m) cache = (Inr children, c)" by simp
  from a have "loader m = Some root" "IsDir m" "\<not> loaded m"
    by simp_all
  then show "treeOrdered (fst (snd (EnsureLoaded fsList m cache)))"
    using f fsList_childless [OF f] by (rule EnsureLoaded_ordered)
qed


lemma sample_load:
  "fst (EnsureLoaded fsList (NewRoot ''root'' (Some sampleFs)) Map.empty) = None
   \<and> map Name (Children (fst (snd (EnsureLoaded fsList (NewRoot ''root'' (Some sampleFs)) Map.empty))))
       = [''A'', ''b'', ''a.md'']"
  by (simp add: EnsureLoaded_def NewRoot_def fsList_def List_def fsLookup_def sampleFs_def
      HasMarkdown.simps shouldSkipDir_def isMarkdown_def hasSuffix_def toLower_def lowerByte_def
      join_def slash_def sortSlice_def nodeLess_def Let_def)

theorem sorting_invariant_witness:
  "treeOrdered (Build ''root'' [''b/x.md'', ''A/y.md'', ''a.md''] :: unit node)
   \<and> treeOrdered (buildFilteredTree ''root'' [''b/x.md'', ''A/y.md'', ''a.md''] :: unit node)
   \<and> treeOrdered (fst (snd (EnsureLoaded fixedList (NewRoot ''root'' (Some ())) ())))
   \<and> treeOrdered (fst (snd (EnsureLoaded fsList (NewRoot ''root'' (Some sampleFs)) Map.empty)))
   \<and> map Name (Children (fst (snd (EnsureLoaded fsList (NewRoot ''root'' (Some sampleFs)) Map.empty))))
       = [''A'', ''b'', ''a.md'']"
proof -
  let ?m = "NewRoot ''root'' (Some sampleFs)"
  let ?n = "NewRoot ''root'' (Some ()) :: unit node"
  let ?cs = "[Node ''b.md'' ''b.md'' False False [] None False,
              Node ''A'' ''A'' True False [] None False] :: unit node list"
  have pre: "loader ?m = Some sampleFs \<and> IsDir ?m \<and> \<not> loaded ?m
      \<and> fst (EnsureLoaded fsList ?m Map.empty) = None"
    using sample_load by (simp add: NewRoot_def)
  have gen: "loader ?n = Some () \<and> IsDir ?n \<and> \<not> loaded ?n
      \<and> fixedList () (Path ?n) () = (Inr ?cs, ()) \<and> (\<forall>c\<in>set ?cs. treeOrdered c)"
    by (simp add: NewRoot_def fixedList_def joinPath_def levelOrdered_def)
  have 1: "treeOrdered (Build ''root'' [''b/x.md'', ''A/y.md'', ''a.md''] :: unit node)"
    by (rule sorting_invariant [THEN conjunct1])
  have 2: "treeOrdered (buildFilteredTree ''root'' [''b/x.md'', ''A/y.md'', ''a.md''] :: unit node)"
    by (rule sorting_invariant [THEN conjunct2, THEN conjunct1])
  have 3: "treeOrdered (fst (snd (EnsureLoaded fsList ?m Map.empty)))"
    by (rule sorting_invariant [THEN conjunct2, THEN conjunct2, THEN conjunct2, THEN conjunct2,
          THEN conjunct2, THEN mp, OF pre])
  have 4: "treeOrdered (fst (snd (EnsureLoaded fixedList ?n ())))"
    by (rule sorting_invariant [where lst = fixedList and n = ?n and l = "()" and w = "()",
          THEN conjunct2, THEN conjunct2, THEN conjunct2, THEN conjunct2,
          THEN conjunct1, THEN mp, OF gen])
  from 1 2 3 4 sample_load show ?thesis by simp
qed

lemma setChildren_sel [simp]:
  "Name (setChildren n cs) = Name n" "Children (setChildren n cs) = cs"
  by (cases n; simp)+

lemma AddChild_sel [simp]:
  "Name (AddChild n c) = Name n" "Children (AddChild n c) = Children n @ [c]"
  by (cases n; simp)+

lemma setChildren_same: "setChildren n (Children n) = n"
  by (cases n) simp

lemma insertParts_Name: "Name (insertParts parts cp t) = Name t"
  by (induction parts cp t rule: insertParts.induct) (simp_all add: Let_def split: option.splits)

lemma updateChild_same:
  "find (\<lambda>c. Name c = name) cs = Some child \<Longrightarrow> f child = child \<Longrightarrow> updateChild name f cs = cs"
  by (induction cs) (auto split: if_splits)

lemma find_updateChild_same:
  "(\<And>c. Name (f c) = Name c) \<Longrightarrow>
   find (\<lambda>c. Name c = name) (updateChild name f cs) = map_option f (find (\<lambda>c. Name c = name) cs)"
  by (induction cs) auto

lemma find_updateChild_other:
  "name' \<noteq> name \<Longrightarrow> (\<And>c. Name (f c) = Name c) \<Longrightarrow>
   find (\<lambda>c. Name c = name') (updateChild name f cs) = find (\<lambda>c. Name c = name') cs"
  by (induction cs) auto

lemma find_append_one:
  "find P (cs @ [x]) = (case find P cs of Some c \<Rightarrow> Some c | None \<Rightarrow> if P x then Some x else None)"
  by (induction cs) auto

lemma present_noop:
  "parts \<noteq> [] \<Longrightarrow> present parts t \<Longrightarrow> insertParts parts cp t = t"
proof (induction parts cp t rule: insertParts.induct)
  case (1 currentPath current)
  then show ?case by simp
next
  case (2 part currentPath current)
  then show ?case by (simp split: option.splits)
next
  case (3 part r rest currentPath current)
  from "3.prems"(2) obtain child where
    c: "find (\<lambda>c. Name c = part) (Children current) = Some child" and p: "present (r # rest) child"
    by (auto split: option.splits)
  have "insertParts (r # rest) (joinPath currentPath part) child = child"
    using "3.IH"(2) [OF refl _ _ p, of child] c by simp
  from updateChild_same [OF c, of "insertParts (r # rest) (joinPath currentPath part)", OF this] c
  show ?case by (simp add: Let_def setChildren_same)
qed

lemma present_AddChild: "present ps t \<Longrightarrow> present ps (AddChild t x)"
  by (cases ps) (auto simp: find_append_one split: option.splits)

lemma present_preserved:
  "present ps t \<Longrightarrow> present ps (insertParts qs cp t)"
proof (induction qs cp t arbitrary: ps rule: insertParts.induct)
  case (1 currentPath current)
  then show ?case by simp
next
  case (2 part currentPath current)
  then show ?case by (simp add: present_AddChild del: AddChild.simps present.simps ChildByName.simps)
next
  case (3 part r rest currentPath current)
  let ?f = "insertParts (r # rest) (joinPath currentPath part)"
  show ?case
  proof (cases "ChildByName current part")
    case None
    with "3.prems" show ?thesis
      by (simp add: Let_def present_AddChild del: AddChild.simps present.simps ChildByName.simps)
  next
    case (Some child)
    have res: "insertParts (part # r # rest) currentPath current
        = setChildren current (updateChild part ?f (Children current))"
      using Some by (simp add: Let_def)
    show ?thesis
    proof (cases ps)
      case Nil
      then show ?thesis by simp
    next
      case (Cons p ps')
      with "3.prems" obtain c where
        c: "find (\<lambda>c. Name c = p) (Children current) = Some c" and pc: "present ps' c"
        by (auto split: option.splits)
      show ?thesis
      proof (cases "p = part")
        case True
        with c Some have cc: "c = child" by simp
        have "present ps' (?f child)"
          using "3.IH"(2) [OF refl Some, of ps'] pc cc by simp
        with True c cc Cons show ?thesis
          by (simp add: res find_updateChild_same insertParts_Name del: insertParts.simps)
      next
        case False
        with c pc Cons show ?thesis
          by (simp add: res find_updateChild_other insertParts_Name del: insertParts.simps)
      qed
    qed
  qed
qed

lemma present_after: "qs \<noteq> [] \<Longrightarrow> present qs (insertParts qs cp (t :: 'l node))"
proof (induction qs cp t rule: insertParts.induct)
  case (1 currentPath current)
  then show ?case by simp
next
  case (2 part currentPath current)
  then show ?case by (auto simp: find_append_one split: option.splits)
next
  case (3 part r rest currentPath current)
  let ?f = "insertParts (r # rest) (joinPath currentPath part)"
  show ?case
  proof (cases "ChildByName current part")
    case None
    let ?d = "Node part (joinPath currentPath part) True False [] None False :: 'l node"
    have "present (r # rest) (?f ?d)"
      using "3.IH"(1) [OF refl None] by simp
    moreover have "insertParts (part # r # rest) currentPath current = AddChild current (?f ?d)"
      using None by (simp add: Let_def)
    moreover have "find (\<lambda>c. Name c = part) (Children current @ [?f ?d]) = Some (?f ?d)"
      using None by (simp add: find_append_one insertParts_Name)
    ultimately show ?thesis
      by (simp del: insertParts.simps)
  next
    case (Some child)
    have "present (r # rest) (?f child)"
      using "3.IH"(2) [OF refl Some] by simp
    moreover have "insertParts (part # r # rest) currentPath current
        = setChildren current (updateChild part ?f (Children current))"
      using Some by (simp add: Let_def)
    ultimately show ?thesis
      using Some by (simp add: find_updateChild_same insertParts_Name del: insertParts.simps)
  qed
qed

lemma splitSlash_ne: "splitSlash s \<noteq> []"
  by (induction s) (auto split: list.splits)

lemma present_foldl:
  "f \<in> set files \<Longrightarrow>
   present (splitSlash f) (foldl (\<lambda>root rel. insertParts (splitSlash rel) [] root) t files)"
proof (induction files rule: rev_induct)
  case Nil
  then show ?case by simp
next
  case (snoc x xs)
  show ?case
  proof (cases "x = f")
    case True
    then show ?thesis by (simp add: present_after splitSlash_ne)
  next
    case False
    with snoc show ?thesis by (simp add: present_preserved)
  qed
qed

text \<open>
  Claim C6. \<open>Build\<close> with the root name \<open>root\<close> and the paths \<open>b/x.md\<close>, \<open>A/y.md\<close>,
  \<open>a.md\<close> gives a root whose children are, in order, the directory \<open>A\<close>, the directory
  \<open>b\<close> and the file \<open>a.md\<close>. Inserting a path whose segments, the last one included, all
  name existing nodes changes nothing, so a path that occurs again in the list is skipped
  and its first occurrence stays.
\<close>

theorem build_result:
  "map (\<lambda>c. (Name c, IsDir c)) (Children (Build ''root'' [''b/x.md'', ''A/y.md'', ''a.md'']))
     = [(''A'', True), (''b'', True), (''a.md'', False)]
   \<and> (parts \<noteq> [] \<and> present parts current \<longrightarrow> insertParts parts currentPath current = current)
   \<and> (f \<in> set files \<longrightarrow> Build rootName (files @ [f]) = (Build rootName files :: 'l node))"
proof (intro conjI impI)
  show "map (\<lambda>c. (Name c, IsDir c)) (Children (Build ''root'' [''b/x.md'', ''A/y.md'', ''a.md'']))
     = [(''A'', True), (''b'', True), (''a.md'', False)]"
    by (simp add: Build_def slash_def joinPath_def sortSlice_def nodeLess_def toLower_def
        lowerByte_def Let_def)
next
  assume "parts \<noteq> [] \<and> present parts current"
  then show "insertParts parts currentPath current = current"
    by (simp add: present_noop)
next
  assume "f \<in> set files"
  then have "insertParts (splitSlash f) []
      (foldl (\<lambda>root rel. insertParts (splitSlash rel) [] root) (Node rootName [] True True [] None False :: 'l node) files)
    = foldl (\<lambda>root rel. insertParts (splitSlash rel) [] root) (Node rootName [] True True [] None False) files"
    by (intro present_noop splitSlash_ne present_foldl)
  then show "Build rootName (files @ [f]) = (Build rootName files :: 'l node)"
    by (simp add: Build_def)
qed

theorem build_result_witness:
  "insertParts [''b'', ''x.md''] [] (Build ''root'' [''b/x.md'', ''A/y.md'', ''a.md''] :: unit node)
     = Build ''root'' [''b/x.md'', ''A/y.md'', ''a.md'']
   \<and> Build ''root'' ([''a.md'', ''b/x.md''] @ [''a.md'']) = (Build ''root'' [''a.md'', ''b/x.md''] :: unit node)"
proof -
  let ?t = "Build ''root'' [''b/x.md'', ''A/y.md'', ''a.md''] :: unit node"
  have p: "[''b'', ''x.md''] \<noteq> [] \<and> present [''b'', ''x.md''] ?t"
    by (simp add: Build_def slash_def joinPath_def sortSlice_def nodeLess_def toLower_def
        lowerByte_def Let_def)
  have m: "''a.md'' \<in> set [''a.md'', ''b/x.md'']"
    by simp
  have 1: "insertParts [''b'', ''x.md''] [] ?t = ?t"
    by (rule build_result [THEN conjunct2, THEN conjunct1, THEN mp, OF p])
  have 2: "Build ''root'' ([''a.md'', ''b/x.md''] @ [''a.md'']) = (Build ''root'' [''a.md'', ''b/x.md''] :: unit node)"
    by (rule build_result [THEN conjunct2, THEN conjunct2, THEN mp, OF m])
  from 1 2 show ?thesis by (rule conjI)
qed

lemma sortChildren_sel [simp]:
  "loaded (sortChildren n) = loaded n" "loader (sortChildren n) = loader n"
  "IsDir (sortChildren n) = IsDir n" "Path (sortChildren n) = Path n"
  by (cases n; simp)+

text \<open>
  Claim C9. When the \<open>List\<close> call of the loader fails, \<open>EnsureLoaded\<close> returns that
  error after this one call and the node is exactly as before, \<open>loaded\<close> still false;
  a later call on it calls \<open>List\<close> again.
\<close>

theorem ensureLoaded_failure_atomic:
  "loader n = Some l \<and> IsDir n \<and> \<not> loaded n \<and> lst l (Path n) w = (Inl e, w') \<longrightarrow>
     EnsureLoaded lst n w = (Some e, n, w', [Path n])
     \<and> snd (snd (snd (EnsureLoaded lst n w'))) = [Path n]"
  by (auto simp: EnsureLoaded_def split: prod.splits sum.splits)

theorem ensureLoaded_failure_atomic_witness:
  "EnsureLoaded failingList (NewRoot ''root'' (Some ())) () =
     (Some (IOError []), NewRoot ''root'' (Some ()), (), [[]])
   \<and> snd (snd (snd (EnsureLoaded failingList (NewRoot ''root'' (Some ())) ()))) = [[]]"
proof -
  let ?n = "NewRoot ''root'' (Some ())"
  have "loader ?n = Some () \<and> IsDir ?n \<and> \<not> loaded ?n
      \<and> failingList () (Path ?n) () = (Inl (IOError []), ())"
    by (simp add: NewRoot_def failingList_def)
  from ensureLoaded_failure_atomic [where lst = failingList and n = ?n and l = "()" and w = "()",
      THEN mp, OF this]
  show ?thesis by (simp add: NewRoot_def)
qed

text \<open>
  Claim C3, as stated, fails for a directory node whose loader cannot list: both calls
  reach \<open>List\<close> and the second returns the error again.
\<close>

theorem ensureLoaded_twice_counterexample:
  "EnsureLoadedTwice failingList (NewRoot ''root'' (Some ())) () =
     (Some (IOError []), NewRoot ''root'' (Some ()), (), [[], []])"
  by (simp add: EnsureLoadedTwice_def EnsureLoaded_def NewRoot_def failingList_def)

text \<open>
  Claim C3, amended. For a directory node with a loader that is not loaded yet and whose
  \<open>List\<close> call succeeds, two calls of \<open>EnsureLoaded\<close> in succession make exactly one
  \<open>List\<close> call: the first loads the node, the second returns no error and leaves the
  node and the world as they are. On a node that is loaded already, is no directory or
  has no loader, neither call reaches \<open>List\<close>.
\<close>

theorem ensureLoaded_idempotent:
  "(loader n = Some l \<and> IsDir n \<and> \<not> loaded n \<and> lst l (Path n) w = (Inr children, w') \<longrightarrow>
     (\<exists>n1. EnsureLoaded lst n w = (None, n1, w', [Path n]) \<and> loaded n1
          \<and> EnsureLoaded lst n1 w' = (None, n1, w', [])
          \<and> EnsureLoadedTwice lst n w = (None, n1, w', [Path n])))
   \<and> (loader n = None \<or> \<not> IsDir n \<or> loaded n \<longrightarrow>
        EnsureLoaded lst n w = (None, n, w, []) \<and> EnsureLoadedTwice lst n w = (None, n, w, []))"
proof (intro conjI impI)
  assume a: "loader n = Some l \<and> IsDir n \<and> \<not> loaded n \<and> lst l (Path n) w = (Inr children, w')"
  let ?n1 = "sortChildren (Node (Name n) (Path n) (IsDir n) (Open n)
                       (map (setLoader (loader n)) children) (loader n) True)"
  have 1: "EnsureLoaded lst n w = (None, ?n1, w', [Path n])"
    using a by (simp add: EnsureLoaded_def)
  have 2: "loaded ?n1" by simp
  have 3: "EnsureLoaded lst ?n1 w' = (None, ?n1, w', [])"
    using a by (simp add: EnsureLoaded_def)
  have 4: "EnsureLoadedTwice lst n w = (None, ?n1, w', [Path n])"
    by (simp only: EnsureLoadedTwice_def 1 3 prod.case append_Nil2)
  from 1 2 3 4
  show "\<exists>n1. EnsureLoaded lst n w = (None, n1, w', [Path n]) \<and> loaded n1
          \<and> EnsureLoaded lst n1 w' = (None, n1, w', [])
          \<and> EnsureLoadedTwice lst n w = (None, n1, w', [Path n])"
    by blast
next
  assume b: "loader n = None \<or> \<not> IsDir n \<or> loaded n"
  then show 5: "EnsureLoaded lst n w = (None, n, w, [])"
    by (auto simp: EnsureLoaded_def split: option.splits)
  show "EnsureLoadedTwice lst n w = (None, n, w, [])"
    by (simp only: EnsureLoadedTwice_def 5 prod.case append_Nil2)
qed

theorem ensureLoaded_idempotent_witness:
  "(\<exists>n1. EnsureLoaded fixedList (NewRoot ''root'' (Some ())) () = (None, n1, (), [[]])
        \<and> map Name (Children n1) = [''A'', ''b.md''] \<and> loaded n1
        \<and> EnsureLoaded fixedList n1 () = (None, n1, (), [])
        \<and> EnsureLoadedTwice fixedList (NewRoot ''root'' (Some ())) () = (None, n1, (), [[]]))
   \<and> EnsureLoadedTwice fixedList (NewRoot ''root'' None) () = (None, NewRoot ''root'' None, (), [])"
proof -
  let ?n = "NewRoot ''root'' (Some ())"
  let ?k = "NewRoot ''root'' None :: unit node"
  have pre: "loader ?n = Some () \<and> IsDir ?n \<and> \<not> loaded ?n
      \<and> fixedList () (Path ?n) () =
          (Inr [Node ''b.md'' ''b.md'' False False [] None False,
                Node ''A'' ''A'' True False [] None False], ())"
    by (simp add: NewRoot_def fixedList_def joinPath_def)
  from ensureLoaded_idempotent [where lst = fixedList and n = ?n and l = "()" and w = "()",
      THEN conjunct1, THEN mp, OF pre]
  obtain n1 where n1: "EnsureLoaded fixedList ?n () = (None, n1, (), [Path ?n])" "loaded n1"
    "EnsureLoaded fixedList n1 () = (None, n1, (), [])"
    "EnsureLoadedTwice fixedList ?n () = (None, n1, (), [Path ?n])"
    by blast
  have "map Name (Children (fst (snd (EnsureLoaded fixedList ?n ())))) = [''A'', ''b.md'']"
    by (simp add: EnsureLoaded_def NewRoot_def fixedList_def joinPath_def sortSlice_def nodeLess_def
        toLower_def lowerByte_def)
  with n1 have "map Name (Children n1) = [''A'', ''b.md'']" by simp
  moreover have "Path ?n = []" by (simp add: NewRoot_def)
  ultimately have 1: "\<exists>n1. EnsureLoaded fixedList ?n () = (None, n1, (), [[]])
        \<and> map Name (Children n1) = [''A'', ''b.md''] \<and> loaded n1
        \<and> EnsureLoaded fixedList n1 () = (None, n1, (), [])
        \<and> EnsureLoadedTwice fixedList ?n () = (None, n1, (), [[]])"
    using n1 by auto
  have "loader ?k = None \<or> \<not> IsDir ?k \<or> loaded ?k"
    by (simp add: NewRoot_def)
  from ensureLoaded_idempotent [where lst = fixedList and n = ?k and w = "()",
      THEN conjunct2, THEN mp, OF this]
  have 2: "EnsureLoadedTwice fixedList ?k () = (None, ?k, (), [])"
    by simp
  from 1 2 show ?thesis by (rule conjI)
qed


section \<open>Properties of the cache\<close>

lemma hm_dom:
  "HasMarkdown d p cache = (r, c, rd) \<Longrightarrow>
     (\<forall>q. cache q \<noteq> None \<longrightarrow> c q \<noteq> None)
     \<and> (\<forall>b. r = Inr b \<longrightarrow> c p = Some b \<and> (\<forall>q\<in>set rd. c q \<noteq> None))"
  and "hasMarkdownEntries es p cache = (r, c, rd) \<Longrightarrow>
     (\<forall>q. cache q \<noteq> None \<longrightarrow> c q \<noteq> None)
     \<and> (\<forall>b. r = Inr b \<longrightarrow> c p = Some b \<and> (\<forall>q\<in>set rd. c q \<noteq> None))"
proof (induction d p cache and es p cache arbitrary: r c rd and r c rd
    rule: HasMarkdown_hasMarkdownEntries.induct)
  case (1 d relPath cache)
  show ?case
  proof (cases "cache relPath")
    case (Some cached)
    with "1.prems" show ?thesis
      by (auto simp: HasMarkdown.simps)
  next
    case None
    show ?thesis
    proof (cases d)
      case FsFile
      with None "1.prems" show ?thesis by (auto simp: HasMarkdown.simps)
    next
      case FsDenied
      with None "1.prems" show ?thesis by (auto simp: HasMarkdown.simps)
    next
      case (FsDir entries)
      obtain r' c' rd' where e: "hasMarkdownEntries entries relPath cache = (r', c', rd')"
        by (cases "hasMarkdownEntries entries relPath cache") auto
      with None FsDir "1.prems" have eq: "r = r'" "c = c'" "rd = relPath # rd'"
        by (simp_all add: HasMarkdown.simps)
      from "1.IH" [OF None FsDir e] eq show ?thesis
        by auto
    qed
  qed
next
  case (2 relPath cache)
  then show ?case by auto
next
  case (3 name e rest relPath cache)
  show ?case
  proof (cases "isDirEntry e")
    case False
    note nd = this
    show ?thesis
    proof (cases "isMarkdown name")
      case True
      with nd "3.prems" show ?thesis by auto
    next
      case False
      with nd "3.prems" have "hasMarkdownEntries rest relPath cache = (r, c, rd)" by simp
      from "3.IH"(4) [OF nd False this] show ?thesis .
    qed
  next
    case True
    note isd = this
    show ?thesis
    proof (cases "shouldSkipDir name")
      case True
      with isd "3.prems" have "hasMarkdownEntries rest relPath cache = (r, c, rd)" by simp
      from "3.IH"(1) [OF isd True this] show ?thesis .
    next
      case False
      note ns = this
      obtain r1 c1 rd1 where h: "HasMarkdown e (join relPath name) cache = (r1, c1, rd1)"
        by (cases "HasMarkdown e (join relPath name) cache") auto
      note ih1 = "3.IH"(2) [OF isd ns h]
      show ?thesis
      proof (cases r1)
        case (Inl er)
        with isd ns h "3.prems" have "r = Inl er" "c = c1" by simp_all
        with ih1 show ?thesis by simp
      next
        case (Inr has)
        show ?thesis
        proof (cases has)
          case True
          with Inr isd ns h "3.prems" have "r = Inr True" "c = c1(relPath \<mapsto> True)" "rd = rd1"
            by simp_all
          with ih1 Inr show ?thesis by auto
        next
          case False
          obtain r2 c2 rd2 where h2: "hasMarkdownEntries rest relPath c1 = (r2, c2, rd2)"
            by (cases "hasMarkdownEntries rest relPath c1") auto
          with False Inr isd ns h "3.prems" have eq: "r = r2" "c = c2" "rd = rd1 @ rd2"
            by simp_all
          have "(r1, c1, rd1) = HasMarkdown e (join relPath name) cache" using h by simp
          note ih2 = "3.IH"(3) [OF isd ns this Inr refl _ h2]
          from ih1 ih2 False Inr eq show ?thesis
            by auto
        qed
      qed
    qed
  qed
qed


lemma hasDocument_Cons:
  "hasDocument (FsDir ((name, e) # rest)) \<longleftrightarrow>
     (if isDirEntry e then \<not> shouldSkipDir name \<and> hasDocument e else isMarkdown name)
     \<or> hasDocument (FsDir rest)"
  by simp

lemma readable_Cons:
  "readable (FsDir ((name, e) # rest)) \<longleftrightarrow>
     (isDirEntry e \<and> \<not> shouldSkipDir name \<longrightarrow> readable e) \<and> readable (FsDir rest)"
  by simp

lemma cacheKeys_Cons:
  "cacheKeys (FsDir ((name, e) # rest)) p =
     (if isDirEntry e \<and> \<not> shouldSkipDir name then cacheKeys e (join p name) else {})
     \<union> cacheKeys (FsDir rest) p"
  by auto

lemma cacheKeys_self: "p \<in> cacheKeys d p"
  by (cases d) simp_all

lemma hm_nodoc:
  "HasMarkdown d p cache = (r, c, rd) \<Longrightarrow> \<not> hasDocument d \<Longrightarrow>
   \<forall>q\<in>cacheKeys d p. cache q \<noteq> Some True \<Longrightarrow>
     r \<noteq> Inr True \<and> (\<forall>q. c q = Some True \<longrightarrow> cache q = Some True)
     \<and> (readable d \<longrightarrow> r = Inr False \<and> c p = Some False)"
  and "hasMarkdownEntries es p cache = (r, c, rd) \<Longrightarrow> \<not> hasDocument (FsDir es) \<Longrightarrow>
   \<forall>q\<in>cacheKeys (FsDir es) p. cache q \<noteq> Some True \<Longrightarrow>
     r \<noteq> Inr True \<and> (\<forall>q. c q = Some True \<longrightarrow> cache q = Some True)
     \<and> (readable (FsDir es) \<longrightarrow> r = Inr False \<and> c p = Some False)"
proof (induction d p cache and es p cache arbitrary: r c rd and r c rd
    rule: HasMarkdown_hasMarkdownEntries.induct)
  case (1 d relPath cache)
  show ?case
  proof (cases "cache relPath")
    case (Some cached)
    from "1.prems"(3) cacheKeys_self [of relPath d] Some have "cached = False"
      by auto
    with Some "1.prems"(1) show ?thesis
      by (auto simp: HasMarkdown.simps)
  next
    case None
    show ?thesis
    proof (cases d)
      case FsFile
      with None "1.prems"(1) show ?thesis by (auto simp: HasMarkdown.simps)
    next
      case FsDenied
      with None "1.prems"(1) show ?thesis by (auto simp: HasMarkdown.simps)
    next
      case (FsDir entries)
      obtain r' c' rd' where e: "hasMarkdownEntries entries relPath cache = (r', c', rd')"
        by (cases "hasMarkdownEntries entries relPath cache") auto
      with None FsDir "1.prems"(1) have eq: "r = r'" "c = c'"
        by (simp_all add: HasMarkdown.simps)
      from "1.IH" [OF None FsDir e] "1.prems"(2,3) FsDir eq show ?thesis
        by blast
    qed
  qed
next
  case (2 relPath cache)
  then show ?case by (auto split: if_splits)
next
  case (3 name e rest relPath cache)
  from "3.prems"(2) have nd_rest: "\<not> hasDocument (FsDir rest)"
    and nd_e: "if isDirEntry e then shouldSkipDir name \<or> \<not> hasDocument e else \<not> isMarkdown name"
    unfolding hasDocument_Cons by (auto split: if_splits)
  from "3.prems"(3) have k_rest: "\<forall>q\<in>cacheKeys (FsDir rest) relPath. cache q \<noteq> Some True"
    unfolding cacheKeys_Cons by blast
  show ?case
  proof (cases "isDirEntry e")
    case False
    note nd = this
    with nd_e have nm: "\<not> isMarkdown name" by simp
    with nd "3.prems"(1) have "hasMarkdownEntries rest relPath cache = (r, c, rd)" by simp
    from "3.IH"(4) [OF nd nm this nd_rest k_rest] nd show ?thesis
      unfolding readable_Cons by blast
  next
    case True
    note isd = this
    show ?thesis
    proof (cases "shouldSkipDir name")
      case True
      with isd "3.prems"(1) have "hasMarkdownEntries rest relPath cache = (r, c, rd)" by simp
      from "3.IH"(1) [OF isd True this nd_rest k_rest] True show ?thesis
        unfolding readable_Cons by blast
    next
      case False
      note ns = this
      with isd nd_e have nde: "\<not> hasDocument e" by simp
      from "3.prems"(3) isd ns have k_e: "\<forall>q\<in>cacheKeys e (join relPath name). cache q \<noteq> Some True"
        unfolding cacheKeys_Cons by simp
      obtain r1 c1 rd1 where h: "HasMarkdown e (join relPath name) cache = (r1, c1, rd1)"
        by (cases "HasMarkdown e (join relPath name) cache") auto
      note ih1 = "3.IH"(2) [OF isd ns h nde k_e]
      show ?thesis
      proof (cases r1)
        case (Inl er)
        with isd ns h "3.prems"(1) have "r = Inl er" "c = c1" by simp_all
        with ih1 Inl isd ns show ?thesis
          unfolding readable_Cons by simp
      next
        case (Inr has)
        with ih1 have hf: "has = False" by simp
        obtain r2 c2 rd2 where h2: "hasMarkdownEntries rest relPath c1 = (r2, c2, rd2)"
          by (cases "hasMarkdownEntries rest relPath c1") auto
        with hf Inr isd ns h "3.prems"(1) have eq: "r = r2" "c = c2"
          by simp_all
        have sym: "(r1, c1, rd1) = HasMarkdown e (join relPath name) cache" using h by simp
        from ih1 k_rest have k1: "\<forall>q\<in>cacheKeys (FsDir rest) relPath. c1 q \<noteq> Some True"
          by blast
        have nh: "\<not> has" using hf by simp
        note ih2 = "3.IH"(3) [OF isd ns sym Inr refl nh h2 nd_rest k1]
        from ih1 ih2 eq show ?thesis
          unfolding readable_Cons by blast
      qed
    qed
  qed
qed

lemma HasMarkdown_hit: "c q = Some b \<Longrightarrow> HasMarkdown d q c = (Inr b, c, [])"
  by (simp add: HasMarkdown.simps)

text \<open>
  Claim C2, amended. Take a directory whose subtree holds no document, and a cache that
  records \<open>true\<close> for none of the directories of that subtree. Then \<open>HasMarkdown\<close> never
  returns \<open>true\<close>; when every directory of the subtree outside the skip list can be read,
  it returns \<open>false\<close> without error and caches it, and the next call with the same path
  returns the cached \<open>false\<close>, reads nothing and leaves the cache as it is, so every later
  call does the same. Whenever a call returns without error, its own path and every
  directory it has read have a cache entry, and a later call for any of them returns that
  entry and reads nothing.
\<close>

theorem hasMarkdown_cache:
  "(HasMarkdown d p cache = (r, c, rd) \<and> \<not> hasDocument d
      \<and> (\<forall>q\<in>cacheKeys d p. cache q \<noteq> Some True) \<longrightarrow>
        r \<noteq> Inr True
        \<and> (readable d \<longrightarrow> r = Inr False \<and> c p = Some False \<and> HasMarkdown d p c = (Inr False, c, [])))
   \<and> (HasMarkdown d p cache = (Inr b, c, rd) \<longrightarrow>
        c p = Some b \<and> HasMarkdown d p c = (Inr b, c, [])
        \<and> (\<forall>q\<in>set rd. \<exists>b'. c q = Some b' \<and> (\<forall>d'. HasMarkdown d' q c = (Inr b', c, []))))"
proof (intro conjI impI)
  assume a: "HasMarkdown d p cache = (r, c, rd) \<and> \<not> hasDocument d
      \<and> (\<forall>q\<in>cacheKeys d p. cache q \<noteq> Some True)"
  then have h: "HasMarkdown d p cache = (r, c, rd)" and nd: "\<not> hasDocument d"
    and k: "\<forall>q\<in>cacheKeys d p. cache q \<noteq> Some True"
    by simp_all
  note l = hm_nodoc(1) [OF h nd k]
  from l show "r \<noteq> Inr True" by simp
  assume "readable d"
  with l have 1: "r = Inr False" and 2: "c p = Some False" by simp_all
  from 1 show "r = Inr False" .
  from 2 show "c p = Some False" .
  from 2 show "HasMarkdown d p c = (Inr False, c, [])" by (rule HasMarkdown_hit)
next
  assume h: "HasMarkdown d p cache = (Inr b, c, rd)"
  note l = hm_dom(1) [OF h]
  from l show 1: "c p = Some b" by simp
  from 1 show "HasMarkdown d p c = (Inr b, c, [])" by (rule HasMarkdown_hit)
  show "\<forall>q\<in>set rd. \<exists>b'. c q = Some b' \<and> (\<forall>d'. HasMarkdown d' q c = (Inr b', c, []))"
  proof
    fix q assume "q \<in> set rd"
    with l obtain b' where "c q = Some b'" by auto
    then show "\<exists>b'. c q = Some b' \<and> (\<forall>d'. HasMarkdown d' q c = (Inr b', c, []))"
      by (auto intro: HasMarkdown_hit)
  qed
qed

text \<open>
  Claim C2, as stated, fails in two ways. Where a subdirectory cannot be read: \<open>docs\<close>
  holds no document, the call returns the error of \<open>docs/secret\<close>, and neither directory
  gets a cache entry, so the next call reads both again. And where the cache still holds
  \<open>true\<close> from the time a document was there (entries are never removed): the directory
  holds no document now and can be read, and the call returns the cached \<open>true\<close>.
\<close>

theorem hasMarkdown_cache_counterexample:
  "\<not> hasDocument (FsDir [(''secret'', FsDenied)])
   \<and> HasMarkdown (FsDir [(''secret'', FsDenied)]) ''docs'' emptyCache
       = (Inl (IOError ''docs/secret''), emptyCache, [''docs'', ''docs/secret''])
   \<and> emptyCache ''docs'' = None \<and> emptyCache ''docs/secret'' = None
   \<and> \<not> hasDocument docsOnlyText \<and> readable docsOnlyText
   \<and> HasMarkdown docsOnlyText ''docs'' (emptyCache(''docs'' \<mapsto> True))
       = (Inr True, emptyCache(''docs'' \<mapsto> True), [])"
  by (simp add: HasMarkdown.simps emptyCache_def docsOnlyText_def shouldSkipDir_def isMarkdown_def
      hasSuffix_def toLower_def lowerByte_def join_def slash_def)

lemma docs_call:
  "HasMarkdown docsOnlyText ''docs'' emptyCache
     = (Inr False, emptyCache(''docs/sub'' \<mapsto> False, ''docs'' \<mapsto> False), [''docs'', ''docs/sub''])"
  by (simp add: docsOnlyText_def HasMarkdown.simps emptyCache_def shouldSkipDir_def isMarkdown_def
      hasSuffix_def toLower_def lowerByte_def join_def slash_def)

theorem hasMarkdown_cache_witness:
  "HasMarkdown docsOnlyText ''docs'' emptyCache
     = (Inr False, emptyCache(''docs/sub'' \<mapsto> False, ''docs'' \<mapsto> False), [''docs'', ''docs/sub''])
   \<and> HasMarkdown docsOnlyText ''docs'' (emptyCache(''docs/sub'' \<mapsto> False, ''docs'' \<mapsto> False))
     = (Inr False, emptyCache(''docs/sub'' \<mapsto> False, ''docs'' \<mapsto> False), [])
   \<and> (\<forall>d'. HasMarkdown d' ''docs/sub'' (emptyCache(''docs/sub'' \<mapsto> False, ''docs'' \<mapsto> False))
     = (Inr False, emptyCache(''docs/sub'' \<mapsto> False, ''docs'' \<mapsto> False), []))"
proof -
  let ?c = "emptyCache(''docs/sub'' \<mapsto> False, ''docs'' \<mapsto> False)"
  have pre: "HasMarkdown docsOnlyText ''docs'' emptyCache = (Inr False, ?c, [''docs'', ''docs/sub''])
      \<and> \<not> hasDocument docsOnlyText
      \<and> (\<forall>q\<in>cacheKeys docsOnlyText ''docs''. emptyCache q \<noteq> Some True)"
    using docs_call
    by (simp add: docsOnlyText_def emptyCache_def isMarkdown_def hasSuffix_def toLower_def lowerByte_def)
  have rdb: "readable docsOnlyText"
    by (simp add: docsOnlyText_def)
  note t = hasMarkdown_cache [where d = docsOnlyText and p = "''docs''" and cache = emptyCache
      and r = "Inr False" and c = ?c and rd = "[''docs'', ''docs/sub'']" and b = False]
  from t [THEN conjunct1, THEN mp, OF pre] rdb
  have 1: "HasMarkdown docsOnlyText ''docs'' ?c = (Inr False, ?c, [])" by blast
  from t [THEN conjunct2, THEN mp] docs_call
  have "\<forall>q\<in>set [''docs'', ''docs/sub'']. \<exists>b'. ?c q = Some b' \<and> (\<forall>d'. HasMarkdown d' q ?c = (Inr b', ?c, []))"
    by blast
  then have 2: "\<forall>d'. HasMarkdown d' ''docs/sub'' ?c = (Inr False, ?c, [])"
    by auto
  from docs_call 1 2 show ?thesis by blast
qed


section \<open>Properties of the watch reactor\<close>





lemma clamp_bounds:
  "0 \<le> hi \<Longrightarrow> 0 \<le> clamp v 0 hi \<and> clamp v 0 hi \<le> hi \<and> (0 \<le> v \<and> v \<le> hi \<longrightarrow> clamp v 0 hi = v)"
  by simp





end
